theory Spec2Isabelle
  imports Main "HOL-Library.AList" "HOL-Library.Multiset"
begin

section \<open>Conventions of the embedding\<close>

text \<open>
  The Python sources under \<open>src/core\<close> are embedded shallowly.
  \<^item> A \<open>dict\<close> is an association list in insertion order (\<open>map_of\<close> reads it,
    \<open>AList.update\<close> writes it in place or appends a new key, \<open>AList.delete\<close> removes a key).
  \<^item> A \<open>set\<close> is a list without duplicates; its list order stands for the iteration order,
    which Python leaves unspecified.
  \<^item> Python's unbounded \<open>int\<close> is \<open>int\<close>.
  \<^item> \<open>datetime.now()\<close> and \<open>uuid.uuid4()\<close> are read from the environment: the model takes
    the clock reading and the fresh identifier as arguments.
  \<^item> Logging has no effect on the state and is left out.
  \<^item> An exception is a value of \<open>error\<close>. A call returns, raises, or (a blocking
    \<open>get\<close> without timeout on an empty queue that nobody fills) never returns.
\<close>

datatype error = CircularDependencyError | ValueError | KeyError | IndexError | TypeError | Empty

datatype 'a outcome = Returns 'a | Raises error | Blocks

text \<open>\<open>s.add(x)\<close> and \<open>s.discard(x)\<close> on a set.\<close>

definition set_add :: "'a \<Rightarrow> 'a list \<Rightarrow> 'a list" where
  "set_add x s = (if x \<in> set s then s else s @ [x])"

definition set_discard :: "'a \<Rightarrow> 'a list \<Rightarrow> 'a list" where
  "set_discard x s = removeAll x s"

section \<open>Shared memory (\<open>core/shared_memory.py\<close>)\<close>

text \<open>
  \<open>MemoryEntry\<close> and \<open>SharedMemory\<close>. Field \<open>value\<close> is called \<open>entry_value\<close> and
  \<open>metadata\<close> is called \<open>entry_metadata\<close>; the four counters of \<open>stats\<close> are fields.
  An observer callback is opaque code: it is modelled by its identity and by whether the
  call raises (the exception is caught and only the counter of delivered notifications
  sees the difference). The re-entrant global lock and the per-key locks serialise the
  callers, so that every operation is one atomic step; the table of per-key locks is kept
  as the list of keys that own a lock. Persistence only reads \<open>data\<close> and is left out.
\<close>

record 'v memory_entry =
  entry_value :: 'v
  author :: string
  timestamp :: nat
  version :: int
  entry_metadata :: "(string \<times> 'v) list"

datatype callback = Callback (cb_id: nat) (cb_raises: bool)

record 'v shared_memory =
  data :: "(string \<times> 'v memory_entry) list"
  key_locks :: "string list"
  observers :: "(string \<times> callback list) list"
  reads :: nat
  writes :: nat
  deletes :: nat
  notifications_sent :: nat

definition notify_observers :: "string \<Rightarrow> 'v shared_memory \<Rightarrow> 'v shared_memory" where
  "notify_observers key m =
     (case map_of (observers m) key of
        None \<Rightarrow> m
      | Some cbs \<Rightarrow>
          m\<lparr>notifications_sent := notifications_sent m + length (filter (\<lambda>c. \<not> cb_raises c) cbs)\<rparr>)"

definition sm_write ::
  "string \<Rightarrow> 'v \<Rightarrow> string \<Rightarrow> (string \<times> 'v) list option \<Rightarrow> nat \<Rightarrow> 'v shared_memory
     \<Rightarrow> 'v shared_memory" where
  "sm_write key val agent_id md now m =
     (let locks = (if key \<in> set (key_locks m) then key_locks m else key_locks m @ [key]);
          new_version = (case map_of (data m) key of
                           Some old_entry \<Rightarrow> version old_entry + 1
                         | None \<Rightarrow> 1);
          entry = \<lparr>entry_value = val, author = agent_id, timestamp = now,
                   version = new_version,
                   entry_metadata = (case md of None \<Rightarrow> [] | Some kvs \<Rightarrow> kvs)\<rparr>
      in notify_observers key
           (m\<lparr>data := AList.update key entry (data m),
              key_locks := locks,
              writes := writes m + 1\<rparr>))"

definition read :: "string \<Rightarrow> 'v option \<Rightarrow> 'v shared_memory \<Rightarrow> 'v option \<times> 'v shared_memory" where
  "read key dflt m =
     (case map_of (data m) key of
        None \<Rightarrow> (dflt, m)
      | Some entry \<Rightarrow> (Some (entry_value entry), m\<lparr>reads := reads m + 1\<rparr>))"

definition read_entry :: "string \<Rightarrow> 'v shared_memory \<Rightarrow> 'v memory_entry option" where
  "read_entry key m = map_of (data m) key"

definition delete :: "string \<Rightarrow> 'v shared_memory \<Rightarrow> bool \<times> 'v shared_memory" where
  "delete key m =
     (if key \<in> fst ` set (data m)
      then (True, m\<lparr>data := AList.delete key (data m),
                     key_locks := removeAll key (key_locks m),
                     observers := AList.delete key (observers m),
                     deletes := deletes m + 1\<rparr>)
      else (False, m))"

definition exists_key :: "string \<Rightarrow> 'v shared_memory \<Rightarrow> bool" where
  "exists_key key m = (key \<in> fst ` set (data m))"

definition keys :: "'v shared_memory \<Rightarrow> string list" where
  "keys m = map fst (data m)"

definition subscribe :: "string \<Rightarrow> callback \<Rightarrow> 'v shared_memory \<Rightarrow> 'v shared_memory" where
  "subscribe key cb m =
     (let obs = (case map_of (observers m) key of None \<Rightarrow> [] | Some cbs \<Rightarrow> cbs)
      in m\<lparr>observers := AList.update key (obs @ [cb]) (observers m)\<rparr>)"

definition unsubscribe :: "string \<Rightarrow> callback \<Rightarrow> 'v shared_memory \<Rightarrow> 'v shared_memory" where
  "unsubscribe key cb m =
     (case map_of (observers m) key of
        None \<Rightarrow> m
      | Some cbs \<Rightarrow> m\<lparr>observers := AList.update key (remove1 cb cbs) (observers m)\<rparr>)"

definition clear :: "'v shared_memory \<Rightarrow> 'v shared_memory" where
  "clear m = m\<lparr>data := [], key_locks := [], observers := []\<rparr>"

text \<open>The public operations of the class, as one datatype, and the state each one leaves.\<close>

datatype 'v sm_op =
    Write string 'v string "(string \<times> 'v) list option" nat
  | Read string "'v option"
  | ReadEntry string
  | Delete string
  | Exists string
  | Keys
  | Subscribe string callback
  | Unsubscribe string callback
  | Clear

fun sm_step :: "'v sm_op \<Rightarrow> 'v shared_memory \<Rightarrow> 'v shared_memory" where
  "sm_step (Write key val agent_id md now) m = sm_write key val agent_id md now m"
| "sm_step (Read key dflt) m = snd (read key dflt m)"
| "sm_step (ReadEntry key) m = m"
| "sm_step (Delete key) m = snd (delete key m)"
| "sm_step (Exists key) m = m"
| "sm_step Keys m = m"
| "sm_step (Subscribe key cb) m = subscribe key cb m"
| "sm_step (Unsubscribe key cb) m = unsubscribe key cb m"
| "sm_step Clear m = clear m"

fun writes_key :: "'v sm_op \<Rightarrow> string \<Rightarrow> bool" where
  "writes_key (Write key val agent_id md now) k = (key = k)"
| "writes_key _ k = False"

definition version_of :: "'v shared_memory \<Rightarrow> string \<Rightarrow> int option" where
  "version_of m key = map_option version (map_of (data m) key)"

definition empty_memory :: "'v shared_memory" where
  "empty_memory = \<lparr>data = [], key_locks = [], observers = [],
                    reads = 0, writes = 0, deletes = 0, notifications_sent = 0\<rparr>"

section \<open>Message bus (\<open>core/message_bus.py\<close>)\<close>

text \<open>
  \<open>Message\<close> (from \<open>agents/base_agent.py\<close>) and \<open>MessageBus\<close>. A mailbox is an unbounded
  \<open>queue.Queue\<close>: \<open>put\<close> appends and never blocks; \<open>get(timeout)\<close> is \<open>queue_get\<close>:
  with no timeout it waits for ever on an empty queue, a negative timeout raises
  \<open>ValueError\<close>, and otherwise an empty queue raises \<open>Empty\<close> once the timeout is over.
\<close>

record 'c message =
  sender :: string
  receiver :: string
  msg_type :: string
  content :: 'c
  msg_metadata :: "(string \<times> 'c) list"
  msg_id :: string
  msg_timestamp :: nat

record 'c message_bus =
  queues :: "(string \<times> 'c message list) list"
  subscriptions :: "(string \<times> string list) list"
  message_history :: "'c message list"
  max_history_size :: nat
  messages_sent :: nat
  messages_received :: nat
  broadcasts_sent :: nat

definition queue_get :: "int option \<Rightarrow> 'a list \<Rightarrow> ('a \<times> 'a list) outcome" where
  "queue_get timeout q =
     (case timeout of
        None \<Rightarrow> (case q of [] \<Rightarrow> Blocks | x # rest \<Rightarrow> Returns (x, rest))
      | Some t \<Rightarrow>
          if t < 0 then Raises ValueError
          else (case q of [] \<Rightarrow> Raises Empty | x # rest \<Rightarrow> Returns (x, rest)))"

definition register_agent :: "string \<Rightarrow> 'c message_bus \<Rightarrow> 'c message_bus" where
  "register_agent agent_id bus =
     (if agent_id \<notin> fst ` set (queues bus)
      then bus\<lparr>queues := AList.update agent_id [] (queues bus)\<rparr>
      else bus)"

definition add_to_history :: "'c message \<Rightarrow> 'c message_bus \<Rightarrow> 'c message_bus" where
  "add_to_history msg bus =
     (let h = message_history bus @ [msg]
      in bus\<lparr>message_history := (if length h > max_history_size bus then tl h else h)\<rparr>)"

definition send :: "'c message \<Rightarrow> 'c message_bus \<Rightarrow> 'c message_bus outcome" where
  "send msg bus =
     (let bus1 = (if receiver msg \<notin> fst ` set (queues bus)
                  then register_agent (receiver msg) bus else bus)
      in case map_of (queues bus1) (receiver msg) of
           None \<Rightarrow> Raises KeyError
         | Some q \<Rightarrow>
             Returns (add_to_history msg
               (bus1\<lparr>queues := AList.update (receiver msg) (q @ [msg]) (queues bus1),
                     messages_sent := messages_sent bus1 + 1\<rparr>)))"

definition receive ::
  "string \<Rightarrow> int option \<Rightarrow> 'c message_bus \<Rightarrow> 'c message option outcome \<times> 'c message_bus" where
  "receive agent_id timeout bus =
     (case map_of (queues bus) agent_id of
        None \<Rightarrow> (Raises ValueError, bus)
      | Some q \<Rightarrow>
          (case queue_get timeout q of
             Returns (msg, rest) \<Rightarrow>
               (Returns (Some msg),
                bus\<lparr>queues := AList.update agent_id rest (queues bus),
                    messages_received := messages_received bus + 1\<rparr>)
           | Raises Empty \<Rightarrow> (Returns None, bus)
           | Raises e \<Rightarrow> (Raises e, bus)
           | Blocks \<Rightarrow> (Blocks, bus)))"

definition empty_bus :: "'c message_bus" where
  "empty_bus = \<lparr>queues = [], subscriptions = [], message_history = [],
                 max_history_size = 1000, messages_sent = 0, messages_received = 0,
                 broadcasts_sent = 0\<rparr>"

definition msg1 :: "nat message" where
  "msg1 = \<lparr>sender = ''a'', receiver = ''b'', msg_type = ''task'', content = 0,
           msg_metadata = [], msg_id = ''m1'', msg_timestamp = 0\<rparr>"

section \<open>Dependency graph (\<open>core/dependency_graph.py\<close>)\<close>

text \<open>
  \<open>graph\<close> maps a node to the set of nodes it depends on, \<open>reverse_graph\<close> maps a node
  to the set of its dependents. Both are \<open>defaultdict(set)\<close>: reading a missing key with
  \<open>d[k]\<close> gives the empty set (and stores it, which no method of the class can tell
  from a missing key, since every read goes through \<open>d[k]\<close> or \<open>d.get(k, set())\<close>);
  \<open>successors\<close> is that read.
\<close>

record dependency_graph =
  graph :: "(string \<times> string list) list"
  reverse_graph :: "(string \<times> string list) list"
  nodes :: "string list"

definition empty_graph :: dependency_graph where
  "empty_graph = \<lparr>graph = [], reverse_graph = [], nodes = []\<rparr>"

definition successors :: "(string \<times> string list) list \<Rightarrow> string \<Rightarrow> string list" where
  "successors d k = (case map_of d k of None \<Rightarrow> [] | Some s \<Rightarrow> s)"

definition add_node :: "string \<Rightarrow> dependency_graph \<Rightarrow> dependency_graph" where
  "add_node node_id g =
     g\<lparr>nodes := set_add node_id (nodes g),
       graph := (if node_id \<notin> fst ` set (graph g)
                 then AList.update node_id [] (graph g) else graph g),
       reverse_graph := (if node_id \<notin> fst ` set (reverse_graph g)
                         then AList.update node_id [] (reverse_graph g) else reverse_graph g)\<rparr>"

text \<open>\<open>_would_create_cycle\<close>: the search from \<open>to_node\<close> along the dependencies, looking
  for \<open>from_node\<close>; \<open>cycle_search\<close> is its while loop over the deque.\<close>

function cycle_search ::
  "(string \<times> string list) list \<Rightarrow> string \<Rightarrow> string list \<Rightarrow> string list \<Rightarrow> bool" where
  "cycle_search gr from_node visited [] = False"
| "cycle_search gr from_node visited (current # queue) =
     (if current = from_node then True
      else if current \<in> set visited then cycle_search gr from_node visited queue
      else cycle_search gr from_node (set_add current visited) (queue @ successors gr current))"
  by pat_completeness auto

definition all_targets :: "(string \<times> string list) list \<Rightarrow> string set" where
  "all_targets gr = (\<Union>e \<in> set gr. set (snd e))"

lemma successors_targets: "set (successors gr k) \<subseteq> all_targets gr"
proof (cases "map_of gr k")
  case None
  then show ?thesis by (simp add: successors_def)
next
  case (Some s)
  then have "(k, s) \<in> set gr" by (rule map_of_SomeD)
  then have "set (snd (k, s)) \<subseteq> all_targets gr" unfolding all_targets_def by blast
  with Some show ?thesis by (simp add: successors_def)
qed

lemma finite_all_targets [simp]: "finite (all_targets gr)"
  by (simp add: all_targets_def)

termination cycle_search
proof (relation "measures [\<lambda>(gr, from_node, visited, queue). card ((all_targets gr \<union> set queue) - set visited),
                           \<lambda>(gr, from_node, visited, queue). length queue]", goal_cases)
  case 1
  show ?case by simp
next
  case (2 gr from_node visited current queue)
  then have "(all_targets gr \<union> set queue) - set visited
             = (all_targets gr \<union> set (current # queue)) - set visited" by auto
  then show ?case by simp
next
  case (3 gr from_node visited current queue)
  let ?A = "(all_targets gr \<union> set (queue @ successors gr current)) - set (set_add current visited)"
  let ?B = "(all_targets gr \<union> set (current # queue)) - set visited"
  have "?A \<subseteq> ?B - {current}"
    using successors_targets [of gr current] by (auto simp: set_add_def)
  moreover have "current \<in> ?B" using 3 by simp
  ultimately have "?A \<subset> ?B" by blast
  moreover have "finite ?B" by simp
  ultimately have "card ?A < card ?B" by (rule psubset_card_mono [rotated])
  then show ?case by simp
qed

definition would_create_cycle :: "dependency_graph \<Rightarrow> string \<Rightarrow> string \<Rightarrow> bool" where
  "would_create_cycle g from_node to_node = cycle_search (graph g) from_node [] [to_node]"

text \<open>\<open>add_dependency\<close> adds both nodes before it looks for a cycle, so the state it
  leaves is returned with the outcome also when it raises.\<close>

definition add_dependency ::
  "string \<Rightarrow> string \<Rightarrow> dependency_graph \<Rightarrow> unit outcome \<times> dependency_graph" where
  "add_dependency node_id depends_on g =
     (let g1 = add_node depends_on (add_node node_id g)
      in if would_create_cycle g1 node_id depends_on
         then (Raises CircularDependencyError, g1)
         else (Returns (),
               g1\<lparr>graph := AList.update node_id
                            (set_add depends_on (successors (graph g1) node_id)) (graph g1),
                  reverse_graph := AList.update depends_on
                            (set_add node_id (successors (reverse_graph g1) depends_on))
                            (reverse_graph g1)\<rparr>))"

definition remove_dependency :: "string \<Rightarrow> string \<Rightarrow> dependency_graph \<Rightarrow> dependency_graph" where
  "remove_dependency node_id depends_on g =
     g\<lparr>graph := (case map_of (graph g) node_id of
                   None \<Rightarrow> graph g
                 | Some s \<Rightarrow> AList.update node_id (set_discard depends_on s) (graph g)),
       reverse_graph := (case map_of (reverse_graph g) depends_on of
                   None \<Rightarrow> reverse_graph g
                 | Some s \<Rightarrow> AList.update depends_on (set_discard node_id s) (reverse_graph g))\<rparr>"

definition get_dependencies :: "string \<Rightarrow> dependency_graph \<Rightarrow> string list" where
  "get_dependencies node_id g = successors (graph g) node_id"

definition get_dependents :: "string \<Rightarrow> dependency_graph \<Rightarrow> string list" where
  "get_dependents node_id g = successors (reverse_graph g) node_id"

definition clear_graph :: "dependency_graph \<Rightarrow> dependency_graph" where
  "clear_graph g = g\<lparr>graph := [], reverse_graph := [], nodes := []\<rparr>"

text \<open>\<open>topological_sort\<close> (Kahn's algorithm). \<open>in_degree\<close> is a dictionary from the
  nodes to integers; \<open>in_degree[dependent] -= 1\<close> raises \<open>KeyError\<close> for a dependent
  that is not a node. \<open>reduce_in_degree\<close> is the inner for loop over the dependents of
  the node taken from the deque, \<open>kahn_loop\<close> the while loop.\<close>

fun reduce_in_degree ::
  "string list \<Rightarrow> (string \<times> int) list \<Rightarrow> string list
     \<Rightarrow> error + (string \<times> int) list \<times> string list" where
  "reduce_in_degree [] in_degree queue = Inr (in_degree, queue)"
| "reduce_in_degree (dependent # rest) in_degree queue =
     (case map_of in_degree dependent of
        None \<Rightarrow> Inl KeyError
      | Some v \<Rightarrow>
          reduce_in_degree rest (AList.update dependent (v - 1) in_degree)
            (if v - 1 = 0 then queue @ [dependent] else queue))"

definition degree_sum :: "(string \<times> int) list \<Rightarrow> nat" where
  "degree_sum in_degree = sum_list (map (\<lambda>e. nat (snd e)) in_degree)"

function kahn_loop ::
  "(string \<times> string list) list \<Rightarrow> (string \<times> int) list \<Rightarrow> string list \<Rightarrow> string list
     \<Rightarrow> error + string list" where
  "kahn_loop rg in_degree [] result = Inr result"
| "kahn_loop rg in_degree (node # queue) result =
     (case reduce_in_degree (successors rg node) in_degree queue of
        Inl e \<Rightarrow> Inl e
      | Inr (in_degree', queue') \<Rightarrow> kahn_loop rg in_degree' queue' (result @ [node]))"
  by pat_completeness auto

lemma degree_sum_update:
  "map_of deg d = Some v \<Longrightarrow>
     degree_sum (AList.update d (v - 1) deg) + (if 1 \<le> v then 1 else 0) = degree_sum deg"
proof (induction deg)
  case Nil
  then show ?case by simp
next
  case (Cons e deg)
  obtain k w where e: "e = (k, w)" by (cases e)
  show ?case
  proof (cases "k = d")
    case True
    with Cons.prems e have "w = v" by simp
    with True e show ?thesis by (auto simp: degree_sum_def)
  next
    case False
    with Cons e have "degree_sum (AList.update d (v - 1) deg) + (if 1 \<le> v then 1 else 0)
                       = degree_sum deg" by simp
    with False e show ?thesis by (simp add: degree_sum_def)
  qed
qed

lemma reduce_in_degree_measure:
  "reduce_in_degree ds deg q = Inr (deg', q')
     \<Longrightarrow> length q' + degree_sum deg' \<le> length q + degree_sum deg"
proof (induction ds arbitrary: deg q)
  case Nil
  then show ?case by simp
next
  case (Cons d ds)
  from Cons.prems obtain v where v: "map_of deg d = Some v"
    by (cases "map_of deg d") simp_all
  let ?deg1 = "AList.update d (v - 1) deg"
  let ?q1 = "if v - 1 = 0 then q @ [d] else q"
  from Cons.prems v have "reduce_in_degree ds ?deg1 ?q1 = Inr (deg', q')" by simp
  from Cons.IH [OF this] have "length q' + degree_sum deg' \<le> length ?q1 + degree_sum ?deg1" .
  also have "\<dots> \<le> length q + degree_sum deg"
    using degree_sum_update [OF v] by (auto split: if_splits)
  finally show ?case .
qed

termination kahn_loop
proof (relation "measure (\<lambda>(rg, deg, q, res). length q + degree_sum deg)", goal_cases)
  case 1
  show ?case by simp
next
  case (2 rg in_degree node queue result x2 in_degree' queue')
  then have "reduce_in_degree (successors rg node) in_degree queue = Inr (in_degree', queue')"
    by simp
  from reduce_in_degree_measure [OF this] show ?case by simp
qed

definition topological_sort :: "dependency_graph \<Rightarrow> error + string list" where
  "topological_sort g =
     (let in_degree = map (\<lambda>node. (node, int (length (successors (graph g) node)))) (nodes g);
          queue = filter (\<lambda>node. map_of in_degree node = Some 0) (nodes g)
      in case kahn_loop (reverse_graph g) in_degree queue [] of
           Inl e \<Rightarrow> Inl e
         | Inr result \<Rightarrow>
             if length result \<noteq> length (nodes g) then Inl CircularDependencyError
             else Inr result)"

definition has_cycle :: "dependency_graph \<Rightarrow> bool" where
  "has_cycle g = (case topological_sort g of Inl e \<Rightarrow> True | Inr order \<Rightarrow> False)"

text \<open>\<open>order.index(x)\<close>: the first position of \<open>x\<close>, none when \<open>x\<close> is not in the list
  (where Python raises \<open>ValueError\<close>).\<close>

fun index_of :: "'a list \<Rightarrow> 'a \<Rightarrow> nat option" where
  "index_of [] x = None"
| "index_of (y # ys) x = (if x = y then Some 0 else map_option Suc (index_of ys x))"

text \<open>The states of a graph: those that the mutating methods reach from the empty graph.
  \<open>add_dependency\<close> leaves a state whether it returns or raises.\<close>

inductive reachable_graph :: "dependency_graph \<Rightarrow> bool" where
  empty: "reachable_graph empty_graph"
| node: "reachable_graph g \<Longrightarrow> reachable_graph (add_node node_id g)"
| dependency: "reachable_graph g \<Longrightarrow> reachable_graph (snd (add_dependency node_id depends_on g))"
| removal: "reachable_graph g \<Longrightarrow> reachable_graph (remove_dependency node_id depends_on g)"
| cleared: "reachable_graph g \<Longrightarrow> reachable_graph (clear_graph g)"

text \<open>The dependency edges as a relation (a node and one of its dependencies), and what
  the methods keep true of a graph: the node set has no duplicates and every node is a key
  of both dictionaries, both ends of an edge are nodes, the two dictionaries hold the same
  edges, the adjacency sets have no duplicates, and no cycle exists.\<close>

definition depends_on :: "dependency_graph \<Rightarrow> (string \<times> string) set" where
  "depends_on g = {(n, d). d \<in> set (successors (graph g) n)}"

definition graph_inv :: "dependency_graph \<Rightarrow> bool" where
  "graph_inv g =
     (distinct (nodes g) \<and>
      set (nodes g) \<subseteq> fst ` set (graph g) \<and>
      set (nodes g) \<subseteq> fst ` set (reverse_graph g) \<and>
      (\<forall>n d. d \<in> set (successors (graph g) n) \<longrightarrow> n \<in> set (nodes g) \<and> d \<in> set (nodes g)) \<and>
      (\<forall>n d. (n \<in> set (successors (reverse_graph g) d)) = (d \<in> set (successors (graph g) n))) \<and>
      (\<forall>n. distinct (successors (graph g) n) \<and> distinct (successors (reverse_graph g) n)) \<and>
      acyclic (depends_on g))"

text \<open>The chain in which \<open>c\<close> depends on \<open>b\<close> and \<open>b\<close> depends on \<open>a\<close>.\<close>

definition chain_graph :: dependency_graph where
  "chain_graph =
     snd (add_dependency ''c'' ''b'' (snd (add_dependency ''b'' ''a'' empty_graph)))"

text \<open>The invariant of the while loop of \<open>topological_sort\<close>: the result so far and the
  deque hold different nodes; the in-degree of a node counts its dependencies that are not
  yet in the result; a node whose dependencies are all in the result is in the result or
  in the deque; the nodes of the deque have all their dependencies in the result; and in
  the result every node comes after its dependencies.\<close>

definition deps_before :: "(string \<times> string list) list \<Rightarrow> string list \<Rightarrow> bool" where
  "deps_before gr res = (\<forall>i < length res. set (successors gr (res ! i)) \<subseteq> set (take i res))"

definition kahn_inv ::
  "dependency_graph \<Rightarrow> (string \<times> int) list \<Rightarrow> string list \<Rightarrow> string list \<Rightarrow> bool" where
  "kahn_inv g deg q res =
     (distinct (res @ q) \<and> set (res @ q) \<subseteq> set (nodes g) \<and>
      (\<forall>n \<in> set (nodes g).
         map_of deg n = Some (int (card (set (successors (graph g) n) - set res)))) \<and>
      (\<forall>n \<in> set (nodes g). set (successors (graph g) n) \<subseteq> set res \<longrightarrow> n \<in> set (res @ q)) \<and>
      (\<forall>n \<in> set q. set (successors (graph g) n) \<subseteq> set res) \<and>
      deps_before (graph g) res)"

section \<open>Agent registry (\<open>core/agent_registry.py\<close>)\<close>

text \<open>
  \<open>AgentInfo\<close> and \<open>AgentRegistry\<close>. The status is a Python string and is kept as one.
  The two indices map a type or a capability to the set of agent identifiers, kept as a
  list without duplicates in the order in which the identifiers were added.
\<close>

record agent_info =
  agent_id :: string
  agent_type :: string
  name :: string
  capabilities :: "string list"
  status :: string
  workload :: int
  total_tasks_completed :: int
  total_tasks_failed :: int
  registered_at :: nat
  last_active :: nat

definition update_activity :: "nat \<Rightarrow> agent_info \<Rightarrow> agent_info" where
  "update_activity now a = a\<lparr>last_active := now\<rparr>"

definition increment_workload :: "nat \<Rightarrow> agent_info \<Rightarrow> agent_info" where
  "increment_workload now a =
     update_activity now (a\<lparr>workload := workload a + 1, status := ''busy''\<rparr>)"

definition decrement_workload :: "nat \<Rightarrow> agent_info \<Rightarrow> agent_info" where
  "decrement_workload now a =
     (let w = max 0 (workload a - 1)
      in update_activity now
           (a\<lparr>workload := w, status := (if w = 0 then ''idle'' else status a)\<rparr>))"

definition agent_complete_task :: "nat \<Rightarrow> agent_info \<Rightarrow> agent_info" where
  "agent_complete_task now a =
     decrement_workload now (a\<lparr>total_tasks_completed := total_tasks_completed a + 1\<rparr>)"

definition agent_fail_task :: "nat \<Rightarrow> agent_info \<Rightarrow> agent_info" where
  "agent_fail_task now a =
     decrement_workload now (a\<lparr>total_tasks_failed := total_tasks_failed a + 1\<rparr>)"

record agent_registry =
  agents :: "(string \<times> agent_info) list"
  agents_by_type :: "(string \<times> string list) list"
  agents_by_capability :: "(string \<times> string list) list"

definition empty_registry :: agent_registry where
  "empty_registry = \<lparr>agents = [], agents_by_type = [], agents_by_capability = []\<rparr>"

text \<open>\<open>index[k].add(x)\<close>, creating the set when the key is new, and \<open>index[k].discard(x)\<close>
  when the key is there; \<open>index.get(k, set())\<close> is \<open>index_get\<close>.\<close>

definition index_get :: "(string \<times> string list) list \<Rightarrow> string \<Rightarrow> string list" where
  "index_get idx k = (case map_of idx k of None \<Rightarrow> [] | Some s \<Rightarrow> s)"

definition index_add ::
  "string \<Rightarrow> string \<Rightarrow> (string \<times> string list) list \<Rightarrow> (string \<times> string list) list" where
  "index_add k x idx =
     (let s = index_get idx k
      in AList.update k (if x \<in> set s then s else s @ [x]) idx)"

definition index_discard ::
  "string \<Rightarrow> string \<Rightarrow> (string \<times> string list) list \<Rightarrow> (string \<times> string list) list" where
  "index_discard k x idx =
     (case map_of idx k of
        None \<Rightarrow> idx
      | Some s \<Rightarrow> AList.update k (removeAll x s) idx)"

definition fresh_agent :: "string \<Rightarrow> string \<Rightarrow> string \<Rightarrow> string list \<Rightarrow> nat \<Rightarrow> agent_info" where
  "fresh_agent aid atype nm caps now =
     \<lparr>agent_id = aid, agent_type = atype, name = nm, capabilities = caps,
      status = ''idle'', workload = 0, total_tasks_completed = 0, total_tasks_failed = 0,
      registered_at = now, last_active = now\<rparr>"

definition register ::
  "string \<Rightarrow> string \<Rightarrow> string \<Rightarrow> string list \<Rightarrow> nat \<Rightarrow> agent_registry
     \<Rightarrow> agent_info \<times> agent_registry" where
  "register aid atype nm caps now r =
     (let info = fresh_agent aid atype nm caps now
      in (info,
          r\<lparr>agents := AList.update aid info (agents r),
            agents_by_type := index_add atype aid (agents_by_type r),
            agents_by_capability :=
              fold (\<lambda>capability idx. index_add capability aid idx) caps (agents_by_capability r)\<rparr>))"

definition unregister :: "string \<Rightarrow> agent_registry \<Rightarrow> agent_registry" where
  "unregister aid r =
     (case map_of (agents r) aid of
        None \<Rightarrow> r
      | Some info \<Rightarrow>
          r\<lparr>agents := AList.delete aid (agents r),
            agents_by_type := index_discard (agent_type info) aid (agents_by_type r),
            agents_by_capability :=
              fold (\<lambda>capability idx. index_discard capability aid idx) (capabilities info)
                (agents_by_capability r)\<rparr>)"

definition get_agent :: "string \<Rightarrow> agent_registry \<Rightarrow> agent_info option" where
  "get_agent aid r = map_of (agents r) aid"

text \<open>\<open>[self.agents[aid] for aid in agent_ids]\<close>: a missing identifier raises \<open>KeyError\<close>.\<close>

fun lookup_agents :: "agent_registry \<Rightarrow> string list \<Rightarrow> error + agent_info list" where
  "lookup_agents r [] = Inr []"
| "lookup_agents r (aid # aids) =
     (case map_of (agents r) aid of
        None \<Rightarrow> Inl KeyError
      | Some a \<Rightarrow>
          (case lookup_agents r aids of
             Inl e \<Rightarrow> Inl e
           | Inr infos \<Rightarrow> Inr (a # infos)))"

definition find_by_type :: "string \<Rightarrow> agent_registry \<Rightarrow> error + agent_info list" where
  "find_by_type atype r = lookup_agents r (index_get (agents_by_type r) atype)"

definition find_by_capability :: "string \<Rightarrow> agent_registry \<Rightarrow> error + agent_info list" where
  "find_by_capability capability r =
     lookup_agents r (index_get (agents_by_capability r) capability)"

text \<open>\<open>min(candidates, key=lambda a: a.workload)\<close> keeps the first of the least loaded.\<close>

fun min_workload :: "agent_info \<Rightarrow> agent_info list \<Rightarrow> agent_info" where
  "min_workload a [] = a"
| "min_workload a (b # bs) = min_workload (if workload b < workload a then b else a) bs"

definition available :: "agent_info \<Rightarrow> bool" where
  "available a = (status a \<in> {''idle'', ''busy''})"

definition least_loaded :: "agent_info list \<Rightarrow> agent_info option" where
  "least_loaded candidates =
     (case filter available candidates of
        [] \<Rightarrow> None
      | a # rest \<Rightarrow> Some (min_workload a rest))"

text \<open>An optional argument is used when it is given and not the empty string
  (\<open>if agent_type:\<close>).\<close>

definition given :: "string option \<Rightarrow> string option" where
  "given s = (case s of None \<Rightarrow> None | Some t \<Rightarrow> if t = [] then None else Some t)"

definition find_available_agent ::
  "string option \<Rightarrow> string option \<Rightarrow> agent_registry \<Rightarrow> error + agent_info option" where
  "find_available_agent atype capability r =
     (case (case given atype of
              Some t \<Rightarrow> find_by_type t r
            | None \<Rightarrow>
                (case given capability of
                   Some c \<Rightarrow> find_by_capability c r
                 | None \<Rightarrow> Inr (map snd (agents r)))) of
        Inl e \<Rightarrow> Inl e
      | Inr candidates \<Rightarrow> Inr (least_loaded candidates))"

definition on_agent :: "string \<Rightarrow> (agent_info \<Rightarrow> agent_info) \<Rightarrow> agent_registry \<Rightarrow> agent_registry" where
  "on_agent aid f r =
     (case map_of (agents r) aid of
        None \<Rightarrow> r
      | Some a \<Rightarrow> r\<lparr>agents := AList.update aid (f a) (agents r)\<rparr>)"

definition update_agent_status :: "string \<Rightarrow> string \<Rightarrow> nat \<Rightarrow> agent_registry \<Rightarrow> agent_registry" where
  "update_agent_status aid st now r = on_agent aid (\<lambda>a. update_activity now (a\<lparr>status := st\<rparr>)) r"

definition increment_agent_workload :: "string \<Rightarrow> nat \<Rightarrow> agent_registry \<Rightarrow> agent_registry" where
  "increment_agent_workload aid now r = on_agent aid (increment_workload now) r"

definition decrement_agent_workload :: "string \<Rightarrow> nat \<Rightarrow> agent_registry \<Rightarrow> agent_registry" where
  "decrement_agent_workload aid now r = on_agent aid (decrement_workload now) r"

definition record_task_completion :: "string \<Rightarrow> bool \<Rightarrow> nat \<Rightarrow> agent_registry \<Rightarrow> agent_registry" where
  "record_task_completion aid success now r =
     on_agent aid (if success then agent_complete_task now else agent_fail_task now) r"

definition clear_registry :: "agent_registry \<Rightarrow> agent_registry" where
  "clear_registry r = r\<lparr>agents := [], agents_by_type := [], agents_by_capability := []\<rparr>"

text \<open>The mutating operations of the registry and the states they reach from the empty one.\<close>

datatype registry_op =
    Register string string string "string list" nat
  | Unregister string
  | UpdateAgentStatus string string nat
  | IncrementAgentWorkload string nat
  | DecrementAgentWorkload string nat
  | RecordTaskCompletion string bool nat
  | ClearRegistry

fun registry_step :: "agent_registry \<Rightarrow> registry_op \<Rightarrow> agent_registry" where
  "registry_step r (Register aid atype nm caps now) = snd (register aid atype nm caps now r)"
| "registry_step r (Unregister aid) = unregister aid r"
| "registry_step r (UpdateAgentStatus aid st now) = update_agent_status aid st now r"
| "registry_step r (IncrementAgentWorkload aid now) = increment_agent_workload aid now r"
| "registry_step r (DecrementAgentWorkload aid now) = decrement_agent_workload aid now r"
| "registry_step r (RecordTaskCompletion aid success now) = record_task_completion aid success now r"
| "registry_step r ClearRegistry = clear_registry r"

definition run_registry :: "registry_op list \<Rightarrow> agent_registry" where
  "run_registry ops = foldl registry_step empty_registry ops"

text \<open>The invariant of the data model, as the specification words it: the workload is not
  negative and, unless the status is \<open>offline\<close>, the status is \<open>idle\<close> exactly when the
  workload is 0 and \<open>busy\<close> exactly when it is positive.\<close>

definition status_matches_workload :: "agent_info \<Rightarrow> bool" where
  "status_matches_workload a =
     (0 \<le> workload a \<and>
      (status a = ''offline'' \<or>
         ((status a = ''idle'') = (workload a = 0) \<and> (status a = ''busy'') = (0 < workload a))))"

fun sets_only_offline :: "registry_op \<Rightarrow> bool" where
  "sets_only_offline (UpdateAgentStatus aid st now) = (st = ''offline'')"
| "sets_only_offline _ = True"

text \<open>Two registries with an agent \<open>b\<close> registered before an agent \<open>a\<close>: in the first
  the type of \<open>a\<close> is the empty string, in the second both are researchers.\<close>

definition untyped_agent :: "registry_op list" where
  "untyped_agent =
     [Register ''b'' ''researcher'' ''B'' [] 0,
      Register ''a'' [] ''A'' [] 1]"

definition idle_researchers :: "registry_op list" where
  "idle_researchers =
     [Register ''b'' ''researcher'' ''B'' [] 0,
      Register ''a'' ''researcher'' ''A'' [] 1]"

text \<open>The invariant that the operations keep when the status is only ever set to
  \<open>offline\<close> from outside, and predicates over all records of a registry.\<close>

definition agent_inv :: "agent_info \<Rightarrow> bool" where
  "agent_inv a =
     (status a \<in> {''idle'', ''busy'', ''offline''} \<and> 0 \<le> workload a \<and>
      (status a = ''idle'' \<longrightarrow> workload a = 0) \<and> (status a = ''busy'' \<longrightarrow> 0 < workload a))"

definition nonneg :: "agent_info \<Rightarrow> bool" where
  "nonneg a = (0 \<le> workload a)"

definition all_agents :: "(agent_info \<Rightarrow> bool) \<Rightarrow> agent_registry \<Rightarrow> bool" where
  "all_agents P r = (\<forall>aid a. map_of (agents r) aid = Some a \<longrightarrow> P a)"

definition busy_at_zero :: agent_info where
  "busy_at_zero =
     \<lparr>agent_id = ''a'', agent_type = ''researcher'', name = ''A'', capabilities = [],
      status = ''busy'', workload = 0, total_tasks_completed = 0, total_tasks_failed = 0,
      registered_at = 0, last_active = 1\<rparr>"

definition offline_at_one :: agent_info where
  "offline_at_one =
     \<lparr>agent_id = ''a'', agent_type = ''researcher'', name = ''A'', capabilities = [],
      status = ''offline'', workload = 1, total_tasks_completed = 0, total_tasks_failed = 0,
      registered_at = 0, last_active = 4\<rparr>"

definition two_researchers :: "registry_op list" where
  "two_researchers =
     [Register ''b'' ''researcher'' ''B'' [] 0,
      IncrementAgentWorkload ''b'' 1,
      Register ''a'' ''researcher'' ''A'' [''search''] 2]"

text \<open>Every registered agent is in the index of its type and of each of its
  capabilities.\<close>

definition indexed :: "string \<Rightarrow> agent_info \<Rightarrow> agent_registry \<Rightarrow> bool" where
  "indexed aid a r =
     (aid \<in> set (index_get (agents_by_type r) (agent_type a)) \<and>
      (\<forall>c \<in> set (capabilities a). aid \<in> set (index_get (agents_by_capability r) c)))"

definition all_indexed :: "agent_registry \<Rightarrow> bool" where
  "all_indexed r = (\<forall>aid a. map_of (agents r) aid = Some a \<longrightarrow> indexed aid a r)"

section \<open>The priority queue of the standard library (\<open>heapq\<close>, \<open>queue.PriorityQueue\<close>)\<close>

text \<open>
  \<open>TaskQueue\<close> keeps its ready tasks in a \<open>queue.PriorityQueue\<close>, whose \<open>put\<close> is
  \<open>heapq.heappush\<close> and whose \<open>get\<close> is \<open>heapq.heappop\<close> on a Python list. The order in
  which tasks of equal priority come out is decided by these two functions, so they are
  embedded as CPython defines them (\<open>Lib/heapq.py\<close>), over a list and the comparison
  \<open>lt\<close> that stands for \<open>__lt__\<close>. The two while loops are the functions
  \<open>siftdown_loop\<close> and \<open>siftup_loop\<close>; every index they read is within the list.
\<close>

function siftdown_loop ::
  "('a \<Rightarrow> 'a \<Rightarrow> bool) \<Rightarrow> 'a list \<Rightarrow> 'a \<Rightarrow> nat \<Rightarrow> nat \<Rightarrow> 'a list" where
  "siftdown_loop lt heap newitem startpos pos =
     (if pos > startpos
      then (let parentpos = (pos - 1) div 2;
                parent = heap ! parentpos
            in if lt newitem parent
               then siftdown_loop lt (heap[pos := parent]) newitem startpos parentpos
               else heap[pos := newitem])
      else heap[pos := newitem])"
  by pat_completeness auto
termination
  by (relation "measure (\<lambda>(lt, heap, newitem, startpos, pos). pos)") auto

definition siftdown :: "('a \<Rightarrow> 'a \<Rightarrow> bool) \<Rightarrow> 'a list \<Rightarrow> nat \<Rightarrow> nat \<Rightarrow> 'a list" where
  "siftdown lt heap startpos pos = siftdown_loop lt heap (heap ! pos) startpos pos"

function siftup_loop ::
  "('a \<Rightarrow> 'a \<Rightarrow> bool) \<Rightarrow> 'a list \<Rightarrow> nat \<Rightarrow> nat \<Rightarrow> 'a list \<times> nat" where
  "siftup_loop lt heap endpos pos =
     (let childpos = 2 * pos + 1
      in if childpos < endpos
         then (let rightpos = childpos + 1;
                   childpos' = (if rightpos < endpos \<and> \<not> lt (heap ! childpos) (heap ! rightpos)
                                then rightpos else childpos)
               in siftup_loop lt (heap[pos := heap ! childpos']) endpos childpos')
         else (heap, pos))"
  by pat_completeness auto
termination
  by (relation "measure (\<lambda>(lt, heap, endpos, pos). endpos - pos)") auto

definition siftup :: "('a \<Rightarrow> 'a \<Rightarrow> bool) \<Rightarrow> 'a list \<Rightarrow> nat \<Rightarrow> 'a list" where
  "siftup lt heap pos =
     (let newitem = heap ! pos;
          (heap', pos') = siftup_loop lt heap (length heap) pos
      in siftdown lt (heap'[pos' := newitem]) pos pos')"

definition heappush :: "('a \<Rightarrow> 'a \<Rightarrow> bool) \<Rightarrow> 'a list \<Rightarrow> 'a \<Rightarrow> 'a list" where
  "heappush lt heap item = siftdown lt (heap @ [item]) 0 (length heap)"

definition heappop :: "('a \<Rightarrow> 'a \<Rightarrow> bool) \<Rightarrow> 'a list \<Rightarrow> error + 'a \<times> 'a list" where
  "heappop lt heap =
     (if heap = [] then Inl IndexError
      else (let lastelt = last heap;
                heap' = butlast heap
            in if heap' \<noteq> []
               then (let returnitem = heap' ! 0
                     in Inr (returnitem, siftup lt (heap'[0 := lastelt]) 0))
               else Inr (lastelt, heap')))"

text \<open>\<open>PriorityQueue.get(timeout=...)\<close>: the waiting discipline of \<open>queue_get\<close> around
  \<open>heappop\<close>. The queue is unbounded, so \<open>put\<close> is \<open>heappush\<close> and never waits.\<close>

definition priority_queue_get ::
  "('a \<Rightarrow> 'a \<Rightarrow> bool) \<Rightarrow> int option \<Rightarrow> 'a list \<Rightarrow> ('a \<times> 'a list) outcome" where
  "priority_queue_get lt timeout heap =
     (case timeout of
        None \<Rightarrow> (if heap = [] then Blocks
                 else (case heappop lt heap of Inl e \<Rightarrow> Raises e | Inr r \<Rightarrow> Returns r))
      | Some t \<Rightarrow>
          if t < 0 then Raises ValueError
          else if heap = [] then Raises Empty
          else (case heappop lt heap of Inl e \<Rightarrow> Raises e | Inr r \<Rightarrow> Returns r))"

declare siftdown_loop.simps [simp del] siftup_loop.simps [simp del]

section \<open>Task queue (\<open>core/task_queue.py\<close>)\<close>

text \<open>
  \<open>Any\<close> payloads (input data, results, metadata values, message contents) are values of
  \<open>py\<close>. A \<open>Task\<close> is a mutable object shared by the priority queue and by the
  dictionary \<open>tasks\<close>; its identifier comes from \<open>uuid4\<close> and is unique, so the
  dictionary is the store of the objects and the priority queue holds, for each entry, the
  priority (the only field that \<open>__lt__\<close> compares, never assigned after the creation)
  and the identifier. Fields \<open>agent_type\<close>, \<open>metadata\<close>, \<open>status\<close> and \<open>error\<close> of
  \<open>Task\<close> carry the prefix \<open>task_\<close>.
\<close>

datatype py = PyNone | PyInt int | PyStr string | PyList "py list" | PyDict "(string \<times> py) list"

datatype task_status = PENDING | IN_PROGRESS | COMPLETED | FAILED | CANCELLED

record task =
  priority :: int
  task_id :: string
  task_agent_type :: string
  action :: string
  input_data :: py
  dependencies :: "string list"
  task_metadata :: "(string \<times> py) list"
  task_status :: task_status
  created_at :: nat
  started_at :: "nat option"
  completed_at :: "nat option"
  result :: py
  task_error :: "string option"

definition start :: "nat \<Rightarrow> task \<Rightarrow> task" where
  "start now t = t\<lparr>task_status := IN_PROGRESS, started_at := Some now\<rparr>"

definition complete :: "py \<Rightarrow> nat \<Rightarrow> task \<Rightarrow> task" where
  "complete res now t = t\<lparr>task_status := COMPLETED, completed_at := Some now, result := res\<rparr>"

definition fail :: "string \<Rightarrow> nat \<Rightarrow> task \<Rightarrow> task" where
  "fail err now t = t\<lparr>task_status := FAILED, completed_at := Some now, task_error := Some err\<rparr>"

definition cancel :: "nat \<Rightarrow> task \<Rightarrow> task" where
  "cancel now t = t\<lparr>task_status := CANCELLED, completed_at := Some now\<rparr>"

record task_queue =
  queue :: "(int \<times> string) list"
  tasks :: "(string \<times> task) list"
  pending :: "string list"
  in_progress :: "string list"
  completed :: "string list"
  failed :: "string list"
  total_tasks :: nat
  completed_tasks :: nat
  failed_tasks :: nat
  cancelled_tasks :: nat

definition empty_queue :: task_queue where
  "empty_queue = \<lparr>queue = [], tasks = [], pending = [], in_progress = [], completed = [],
                   failed = [], total_tasks = 0, completed_tasks = 0, failed_tasks = 0,
                   cancelled_tasks = 0\<rparr>"

text \<open>\<open>Task.__lt__\<close> of the dataclass with \<open>order=True\<close>: only \<open>priority\<close> is compared.\<close>

definition task_lt :: "int \<times> string \<Rightarrow> int \<times> string \<Rightarrow> bool" where
  "task_lt a b = (fst a < fst b)"

definition can_execute :: "task_queue \<Rightarrow> task \<Rightarrow> bool" where
  "can_execute q t =
     (if dependencies t = [] then True
      else list_all (\<lambda>dep_id. dep_id \<in> set (completed q)) (dependencies t))"

definition new_task ::
  "string \<Rightarrow> string \<Rightarrow> string \<Rightarrow> py \<Rightarrow> int \<Rightarrow> string list \<Rightarrow> (string \<times> py) list \<Rightarrow> nat \<Rightarrow> task" where
  "new_task tid atype act inp prio deps md now =
     \<lparr>priority = prio, task_id = tid, task_agent_type = atype, action = act,
      input_data = inp, dependencies = deps, task_metadata = md, task_status = PENDING,
      created_at = now, started_at = None, completed_at = None, result = PyNone,
      task_error = None\<rparr>"

definition add_task ::
  "string \<Rightarrow> string \<Rightarrow> string \<Rightarrow> py \<Rightarrow> int \<Rightarrow> string list \<Rightarrow> (string \<times> py) list \<Rightarrow> nat
     \<Rightarrow> task_queue \<Rightarrow> task \<times> task_queue" where
  "add_task tid atype act inp prio deps md now q =
     (let t = new_task tid atype act inp prio deps md now;
          q1 = q\<lparr>tasks := AList.update tid t (tasks q),
                 pending := set_add tid (pending q),
                 total_tasks := total_tasks q + 1\<rparr>
      in (t, if can_execute q1 t
             then q1\<lparr>queue := heappush task_lt (queue q1) (priority t, tid)\<rparr>
             else q1))"

text \<open>A method call on the task object with the given identifier.\<close>

definition on_task :: "string \<Rightarrow> (task \<Rightarrow> task) \<Rightarrow> task_queue \<Rightarrow> task_queue" where
  "on_task tid f q =
     (case map_of (tasks q) tid of
        None \<Rightarrow> q
      | Some t \<Rightarrow> q\<lparr>tasks := AList.update tid (f t) (tasks q)\<rparr>)"

definition get_next_task ::
  "int option \<Rightarrow> nat \<Rightarrow> task_queue \<Rightarrow> string option outcome \<times> task_queue" where
  "get_next_task timeout now q =
     (case priority_queue_get task_lt timeout (queue q) of
        Returns ((prio, tid), rest) \<Rightarrow>
          (Returns (Some tid),
           on_task tid (start now)
             (q\<lparr>queue := rest,
                pending := set_discard tid (pending q),
                in_progress := set_add tid (in_progress q)\<rparr>))
      | Raises Empty \<Rightarrow> (Returns None, q)
      | Raises e \<Rightarrow> (Raises e, q)
      | Blocks \<Rightarrow> (Blocks, q))"

text \<open>\<open>_check_dependent_tasks\<close>: the loop over a copy of \<open>pending\<close>; \<open>self.tasks[task_id]\<close>
  raises \<open>KeyError\<close> for an identifier that is not a key.\<close>

fun check_dependent_tasks ::
  "string \<Rightarrow> string list \<Rightarrow> task_queue \<Rightarrow> task_queue outcome" where
  "check_dependent_tasks completed_task_id [] q = Returns q"
| "check_dependent_tasks completed_task_id (tid # rest) q =
     (case map_of (tasks q) tid of
        None \<Rightarrow> Raises KeyError
      | Some t \<Rightarrow>
          check_dependent_tasks completed_task_id rest
            (if completed_task_id \<in> set (dependencies t) \<and> can_execute q t
             then q\<lparr>queue := heappush task_lt (queue q) (priority t, tid)\<rparr>
             else q))"

definition complete_task :: "string \<Rightarrow> py \<Rightarrow> nat \<Rightarrow> task_queue \<Rightarrow> task_queue outcome" where
  "complete_task tid res now q =
     (if tid \<notin> fst ` set (tasks q) then Returns q
      else (let q1 = on_task tid (complete res now) q;
                q2 = q1\<lparr>in_progress := set_discard tid (in_progress q1),
                        completed := set_add tid (completed q1),
                        completed_tasks := completed_tasks q1 + 1\<rparr>
            in check_dependent_tasks tid (pending q2) q2))"

definition fail_task :: "string \<Rightarrow> string \<Rightarrow> nat \<Rightarrow> task_queue \<Rightarrow> task_queue" where
  "fail_task tid err now q =
     (if tid \<notin> fst ` set (tasks q) then q
      else (let q1 = on_task tid (fail err now) q
            in q1\<lparr>in_progress := set_discard tid (in_progress q1),
                   failed := set_add tid (failed q1),
                   failed_tasks := failed_tasks q1 + 1\<rparr>))"

definition cancel_task :: "string \<Rightarrow> nat \<Rightarrow> task_queue \<Rightarrow> task_queue" where
  "cancel_task tid now q =
     (if tid \<notin> fst ` set (tasks q) then q
      else (let q1 = on_task tid (cancel now) q
            in q1\<lparr>pending := set_discard tid (pending q1),
                   in_progress := set_discard tid (in_progress q1),
                   cancelled_tasks := cancelled_tasks q1 + 1\<rparr>))"

definition get_task :: "string \<Rightarrow> task_queue \<Rightarrow> task option" where
  "get_task tid q = map_of (tasks q) tid"

definition clear_queue :: "task_queue \<Rightarrow> task_queue" where
  "clear_queue q = q\<lparr>queue := [], tasks := [], pending := [], in_progress := [],
                      completed := [], failed := []\<rparr>"

text \<open>The states of a task queue: those that the public operations reach from the empty
  queue, where each new task gets an identifier that is not in use (\<open>uuid4\<close>).\<close>

inductive reachable_queue :: "task_queue \<Rightarrow> bool" where
  init: "reachable_queue empty_queue"
| add: "reachable_queue q \<Longrightarrow> tid \<notin> fst ` set (tasks q)
          \<Longrightarrow> reachable_queue (snd (add_task tid atype act inp prio deps md now q))"
| get: "reachable_queue q \<Longrightarrow> reachable_queue (snd (get_next_task timeout now q))"
| complete: "reachable_queue q \<Longrightarrow> complete_task tid res now q = Returns q'
          \<Longrightarrow> reachable_queue q'"
| fail: "reachable_queue q \<Longrightarrow> reachable_queue (fail_task tid err now q)"
| cancel: "reachable_queue q \<Longrightarrow> reachable_queue (cancel_task tid now q)"
| clear: "reachable_queue q \<Longrightarrow> reachable_queue (clear_queue q)"

text \<open>\<open>n\<close> calls of \<open>get_next_task\<close> in a row, and the identifiers they return; the calls
  stop at the first one that does not return a task.\<close>

fun next_tasks :: "nat \<Rightarrow> int option \<Rightarrow> nat \<Rightarrow> task_queue \<Rightarrow> string list" where
  "next_tasks 0 timeout now q = []"
| "next_tasks (Suc n) timeout now q =
     (case get_next_task timeout now q of
        (Returns (Some tid), q') \<Rightarrow> tid # next_tasks n timeout now q'
      | _ \<Rightarrow> [])"

text \<open>A request to \<open>add_task\<close> (with the identifier that \<open>uuid4\<close> will give), and
  adding the tasks of a list of requests one after the other.\<close>

record task_request =
  req_id :: string
  req_agent_type :: string
  req_action :: string
  req_input :: py
  req_priority :: int
  req_dependencies :: "string list"
  req_metadata :: "(string \<times> py) list"

fun add_tasks :: "task_request list \<Rightarrow> nat \<Rightarrow> task_queue \<Rightarrow> task_queue" where
  "add_tasks [] now q = q"
| "add_tasks (r # rs) now q =
     add_tasks rs now
       (snd (add_task (req_id r) (req_agent_type r) (req_action r) (req_input r)
               (req_priority r) (req_dependencies r) (req_metadata r) now q))"

definition plain_request :: "int \<Rightarrow> string \<Rightarrow> task_request" where
  "plain_request prio tid =
     \<lparr>req_id = tid, req_agent_type = ''worker'', req_action = ''run'', req_input = PyNone,
      req_priority = prio, req_dependencies = [], req_metadata = []\<rparr>"

text \<open>A timeout that \<open>get\<close> accepts: none, or a number that is not negative.\<close>

definition valid_timeout :: "int option \<Rightarrow> bool" where
  "valid_timeout timeout = (case timeout of None \<Rightarrow> True | Some t \<Rightarrow> 0 \<le> t)"

text \<open>The identifiers in the order in which \<open>n\<close> pops take them from a heap.\<close>

fun pop_order :: "nat \<Rightarrow> (int \<times> string) list \<Rightarrow> string list" where
  "pop_order 0 heap = []"
| "pop_order (Suc n) heap =
     (case heappop task_lt heap of
        Inl e \<Rightarrow> []
      | Inr ((prio, tid), rest) \<Rightarrow> tid # pop_order n rest)"

text \<open>What the operations keep true of a task queue: every entry of the priority queue
  belongs to a stored task with that priority whose dependencies are all in \<open>completed\<close>,
  and every pending identifier is the key of a stored task.\<close>

definition ready_entry :: "task_queue \<Rightarrow> int \<times> string \<Rightarrow> bool" where
  "ready_entry q e =
     (\<exists>t. map_of (tasks q) (snd e) = Some t \<and> priority t = fst e \<and>
          (\<forall>d \<in> set (dependencies t). d \<in> set (completed q)))"

definition queue_inv :: "task_queue \<Rightarrow> bool" where
  "queue_inv q =
     ((\<forall>e \<in> set (queue q). ready_entry q e) \<and> set (pending q) \<subseteq> fst ` set (tasks q))"

text \<open>A later state keeps the tasks of an earlier one when every stored task is still
  stored with the same priority and dependencies and nothing has left \<open>completed\<close>.\<close>

definition keeps_tasks :: "task_queue \<Rightarrow> task_queue \<Rightarrow> bool" where
  "keeps_tasks q q' =
     ((\<forall>k t. map_of (tasks q) k = Some t \<longrightarrow>
          (\<exists>t'. map_of (tasks q') k = Some t' \<and> priority t' = priority t \<and>
                dependencies t' = dependencies t)) \<and>
      set (completed q) \<subseteq> set (completed q'))"

text \<open>A queue with a task \<open>d\<close> and a task \<open>t\<close> of higher precedence that depends on
  \<open>d\<close>.\<close>

definition gated_queue :: task_queue where
  "gated_queue =
     snd (add_task ''t'' ''writer'' ''write'' PyNone 1 [''d''] [] 1
       (snd (add_task ''d'' ''researcher'' ''research'' PyNone 2 [] [] 0 empty_queue)))"

text \<open>A queue whose only task depends on an identifier that names no task; and the queue
  above after \<open>t\<close> has been cancelled and \<open>d\<close> has been handed out.\<close>

definition orphan_queue :: task_queue where
  "orphan_queue =
     snd (add_task ''t'' ''writer'' ''write'' PyNone 1 [''ghost''] [] 0 empty_queue)"

definition cancelled_queue :: task_queue where
  "cancelled_queue = snd (get_next_task (Some 1) 3 (cancel_task ''t'' 2 gated_queue))"

section \<open>Orchestrator (\<open>core/orchestrator.py\<close>)\<close>

text \<open>
  The orchestrator owns one task queue, one dependency graph, one agent registry, one
  message bus and one shared memory; payloads on the bus and in the memory are values of
  \<open>py\<close>. Methods whose name is already taken by a method of a component carry the
  prefix \<open>orch_\<close>; the dictionary that \<open>execute_all\<close> returns is the record
  \<open>results\<close>, with the prefix \<open>results_\<close> on its keys.

  A call of \<open>execute_task\<close> or one pass of the loop of \<open>execute_all\<close> reads the clock
  once (\<open>now\<close>) and takes the identifier of the message it creates (\<open>mid\<close>) as an
  argument. A timestamp inside a dictionary (\<open>isoformat\<close>) is the clock reading as a
  number, and a duration is the difference of two readings. Between \<open>send\<close> and
  \<open>receive\<close> the agents run on their own; what they do to the bus in that time is the
  argument \<open>env\<close>. The state paired with a raise is the state after the last call that
  returned.
\<close>

record orchestrator =
  task_queue :: task_queue
  dependency_graph :: dependency_graph
  agent_registry :: agent_registry
  message_bus :: "py message_bus"
  shared_memory :: "py shared_memory"
  running :: bool

definition new_orchestrator :: orchestrator where
  "new_orchestrator =
     \<lparr>task_queue = empty_queue, dependency_graph = empty_graph,
      agent_registry = empty_registry, message_bus = empty_bus,
      shared_memory = empty_memory, running = False\<rparr>"

text \<open>\<open>register_agent\<close>: the agent's name is also its type in the registry.\<close>

definition orch_register_agent ::
  "string \<Rightarrow> string \<Rightarrow> string list \<Rightarrow> nat \<Rightarrow> orchestrator \<Rightarrow> orchestrator" where
  "orch_register_agent aid nm caps now orch =
     orch\<lparr>agent_registry := snd (register aid nm nm caps now (agent_registry orch)),
          message_bus := register_agent aid (message_bus orch)\<rparr>"

text \<open>\<open>add_task\<close>: the task goes to the queue, then its node and its dependencies go to
  the graph, one \<open>add_dependency\<close> after the other until one raises.\<close>

fun add_dependencies ::
  "string \<Rightarrow> string list \<Rightarrow> dependency_graph \<Rightarrow> unit outcome \<times> dependency_graph" where
  "add_dependencies tid [] g = (Returns (), g)"
| "add_dependencies tid (dep_id # rest) g =
     (case add_dependency tid dep_id g of
        (Returns u, g') \<Rightarrow> add_dependencies tid rest g'
      | (Raises e, g') \<Rightarrow> (Raises e, g')
      | (Blocks, g') \<Rightarrow> (Blocks, g'))"

definition orch_add_task ::
  "string \<Rightarrow> string \<Rightarrow> string \<Rightarrow> py \<Rightarrow> int \<Rightarrow> string list \<Rightarrow> (string \<times> py) list \<Rightarrow> nat
     \<Rightarrow> orchestrator \<Rightarrow> task outcome \<times> orchestrator" where
  "orch_add_task tid atype act inp prio deps md now orch =
     (case add_task tid atype act inp prio deps md now (task_queue orch) of
        (t, q) \<Rightarrow>
          (case add_dependencies tid deps (add_node tid (dependency_graph orch)) of
             (Returns u, g) \<Rightarrow> (Returns t, orch\<lparr>task_queue := q, dependency_graph := g\<rparr>)
           | (Raises e, g) \<Rightarrow> (Raises e, orch\<lparr>task_queue := q, dependency_graph := g\<rparr>)
           | (Blocks, g) \<Rightarrow> (Blocks, orch\<lparr>task_queue := q, dependency_graph := g\<rparr>)))"

text \<open>\<open>Task.to_dict\<close> and \<open>Task.get_duration\<close>.\<close>

fun status_value :: "task_status \<Rightarrow> string" where
  "status_value PENDING = ''pending''"
| "status_value IN_PROGRESS = ''in_progress''"
| "status_value COMPLETED = ''completed''"
| "status_value FAILED = ''failed''"
| "status_value CANCELLED = ''cancelled''"

definition get_duration :: "task \<Rightarrow> py" where
  "get_duration t =
     (case started_at t of
        None \<Rightarrow> PyNone
      | Some s \<Rightarrow> (case completed_at t of None \<Rightarrow> PyNone | Some c \<Rightarrow> PyInt (int c - int s)))"

definition isoformat :: "nat option \<Rightarrow> py" where
  "isoformat ts = (case ts of None \<Rightarrow> PyNone | Some n \<Rightarrow> PyInt (int n))"

definition to_dict :: "task \<Rightarrow> py" where
  "to_dict t =
     PyDict [(''task_id'', PyStr (task_id t)),
             (''agent_type'', PyStr (task_agent_type t)),
             (''action'', PyStr (action t)),
             (''priority'', PyInt (priority t)),
             (''status'', PyStr (status_value (task_status t))),
             (''dependencies'', PyList (map PyStr (dependencies t))),
             (''created_at'', isoformat (Some (created_at t))),
             (''started_at'', isoformat (started_at t)),
             (''completed_at'', isoformat (completed_at t)),
             (''duration'', get_duration t),
             (''metadata'', PyDict (task_metadata t))]"

text \<open>\<open>task.metadata.get("timeout", 60)\<close>, and \<open>receive\<close> with that value as its timeout:
  \<open>None\<close> waits for ever, a number is a timeout, and any other value makes the comparison
  \<open>timeout < 0\<close> of \<open>Queue.get\<close> raise \<open>TypeError\<close>.\<close>

definition task_timeout :: "task \<Rightarrow> py" where
  "task_timeout t =
     (case map_of (task_metadata t) ''timeout'' of None \<Rightarrow> PyInt 60 | Some v \<Rightarrow> v)"

definition receive_py ::
  "string \<Rightarrow> py \<Rightarrow> py message_bus \<Rightarrow> py message option outcome \<times> py message_bus" where
  "receive_py aid timeout bus =
     (case timeout of
        PyNone \<Rightarrow> receive aid None bus
      | PyInt n \<Rightarrow> receive aid (Some n) bus
      | _ \<Rightarrow> (case map_of (queues bus) aid of
                None \<Rightarrow> (Raises ValueError, bus)
              | Some q \<Rightarrow> (Raises TypeError, bus)))"

definition task_message :: "string \<Rightarrow> nat \<Rightarrow> string \<Rightarrow> task \<Rightarrow> py message" where
  "task_message mid now aid t =
     \<lparr>sender = ''orchestrator'', receiver = aid, msg_type = ''task'',
      content = PyDict [(''task_id'', PyStr (task_id t)),
                        (''action'', PyStr (action t)),
                        (''input_data'', input_data t),
                        (''metadata'', PyDict (task_metadata t))],
      msg_metadata = [], msg_id = mid, msg_timestamp = now\<rparr>"

text \<open>The two branches of \<open>execute_task\<close> after the response has arrived.\<close>

definition task_succeeded ::
  "string \<Rightarrow> string \<Rightarrow> py \<Rightarrow> nat \<Rightarrow> orchestrator \<Rightarrow> bool outcome \<times> orchestrator" where
  "task_succeeded tid aid res now orch =
     (case complete_task tid res now (task_queue orch) of
        Returns q \<Rightarrow>
          (Returns True,
           orch\<lparr>task_queue := q,
                agent_registry := record_task_completion aid True now (agent_registry orch),
                shared_memory :=
                  sm_write (''result_'' @ tid) res aid None now (shared_memory orch)\<rparr>)
      | Raises e \<Rightarrow> (Raises e, orch)
      | Blocks \<Rightarrow> (Blocks, orch))"

definition task_failed ::
  "string \<Rightarrow> string \<Rightarrow> string \<Rightarrow> nat \<Rightarrow> orchestrator \<Rightarrow> bool outcome \<times> orchestrator" where
  "task_failed tid aid err now orch =
     (Returns False,
      orch\<lparr>task_queue := fail_task tid err now (task_queue orch),
           agent_registry := record_task_completion aid False now (agent_registry orch)\<rparr>)"

definition execute_task ::
  "(py message_bus \<Rightarrow> py message_bus) \<Rightarrow> string \<Rightarrow> nat \<Rightarrow> task \<Rightarrow> orchestrator
     \<Rightarrow> bool outcome \<times> orchestrator" where
  "execute_task env mid now t orch =
     (case find_available_agent (Some (task_agent_type t)) None (agent_registry orch) of
        Inl e \<Rightarrow> (Raises e, orch)
      | Inr None \<Rightarrow> (Returns False, orch)
      | Inr (Some agent_info) \<Rightarrow>
          (let aid = agent_id agent_info;
               orch1 = orch\<lparr>agent_registry :=
                              increment_agent_workload aid now (agent_registry orch)\<rparr>;
               orch2 = orch1\<lparr>shared_memory :=
                                sm_write (''task_'' @ task_id t) (to_dict t) ''orchestrator''
                                  None now (shared_memory orch1)\<rparr>
           in case send (task_message mid now aid t) (message_bus orch2) of
                Raises e \<Rightarrow> (Raises e, orch2)
              | Blocks \<Rightarrow> (Blocks, orch2)
              | Returns bus \<Rightarrow>
                  (case receive_py ''orchestrator'' (task_timeout t) (env bus) of
                     (Raises e, bus') \<Rightarrow> (Raises e, orch2\<lparr>message_bus := bus'\<rparr>)
                   | (Blocks, bus') \<Rightarrow> (Blocks, orch2\<lparr>message_bus := bus'\<rparr>)
                   | (Returns response, bus') \<Rightarrow>
                       (case response of
                          None \<Rightarrow>
                            task_failed (task_id t) aid ''Agent did not respond in time'' now
                              (orch2\<lparr>message_bus := bus'\<rparr>)
                        | Some r \<Rightarrow>
                            if msg_type r = ''result''
                            then task_succeeded (task_id t) aid (content r) now
                                   (orch2\<lparr>message_bus := bus'\<rparr>)
                            else task_failed (task_id t) aid ''Unexpected response'' now
                                   (orch2\<lparr>message_bus := bus'\<rparr>)))))"

text \<open>The dictionary \<open>results\<close> of \<open>execute_all\<close>.\<close>

record results =
  results_total_tasks :: nat
  results_completed :: "string list"
  results_failed :: "string list"
  results_cancelled :: "string list"

definition initial_results :: "orchestrator \<Rightarrow> results" where
  "initial_results orch =
     \<lparr>results_total_tasks = length (tasks (task_queue orch)), results_completed = [],
      results_failed = [], results_cancelled = []\<rparr>"

text \<open>One pass of the loop of \<open>execute_all\<close>. The Boolean says whether the loop goes on
  (\<open>continue\<close>, or the end of the body) or stops (\<open>break\<close>). The task that
  \<open>get_next_task\<close> returns is the object stored under the identifier \<open>tid\<close>, which
  is its \<open>task_id\<close>; the priority queue of a reachable state holds stored tasks only,
  and the branch for an identifier without a stored task is there to make the function
  total.\<close>

definition dispatch_pass ::
  "(py message_bus \<Rightarrow> py message_bus) \<Rightarrow> string \<Rightarrow> nat \<Rightarrow> orchestrator \<Rightarrow> results
     \<Rightarrow> (bool \<times> results) outcome \<times> orchestrator" where
  "dispatch_pass env mid now orch res =
     (case get_next_task (Some 1) now (task_queue orch) of
        (Raises e, q) \<Rightarrow> (Raises e, orch\<lparr>task_queue := q\<rparr>)
      | (Blocks, q) \<Rightarrow> (Blocks, orch\<lparr>task_queue := q\<rparr>)
      | (Returns None, q) \<Rightarrow>
          (Returns (length (pending q) \<noteq> 0, res), orch\<lparr>task_queue := q\<rparr>)
      | (Returns (Some tid), q) \<Rightarrow>
          (case map_of (tasks q) tid of
             None \<Rightarrow> (Raises KeyError, orch\<lparr>task_queue := q\<rparr>)
           | Some t \<Rightarrow>
               (case execute_task env mid now t (orch\<lparr>task_queue := q\<rparr>) of
                  (Raises e, orch') \<Rightarrow> (Raises e, orch')
                | (Blocks, orch') \<Rightarrow> (Blocks, orch')
                | (Returns success, orch') \<Rightarrow>
                    (Returns (True,
                       if success
                       then res\<lparr>results_completed := results_completed res @ [tid]\<rparr>
                       else res\<lparr>results_failed := results_failed res @ [tid]\<rparr>),
                     orch'))))"

text \<open>The loop: pass number \<open>iteration + 1\<close> runs while \<open>remaining\<close> passes are left, with
  the environment, message identifier and clock reading of that pass.\<close>

fun execute_loop ::
  "(nat \<Rightarrow> py message_bus \<Rightarrow> py message_bus) \<Rightarrow> (nat \<Rightarrow> string) \<Rightarrow> (nat \<Rightarrow> nat) \<Rightarrow> nat \<Rightarrow> nat
     \<Rightarrow> orchestrator \<Rightarrow> results \<Rightarrow> results outcome \<times> orchestrator" where
  "execute_loop env ids clock iteration 0 orch res = (Returns res, orch)"
| "execute_loop env ids clock iteration (Suc remaining) orch res =
     (case dispatch_pass (env (Suc iteration)) (ids (Suc iteration)) (clock (Suc iteration))
             orch res of
        (Raises e, orch') \<Rightarrow> (Raises e, orch')
      | (Blocks, orch') \<Rightarrow> (Blocks, orch')
      | (Returns (go_on, res'), orch') \<Rightarrow>
          if go_on then execute_loop env ids clock (Suc iteration) remaining orch' res'
          else (Returns res', orch'))"

definition execute_all ::
  "(nat \<Rightarrow> py message_bus \<Rightarrow> py message_bus) \<Rightarrow> (nat \<Rightarrow> string) \<Rightarrow> (nat \<Rightarrow> nat) \<Rightarrow> int
     \<Rightarrow> orchestrator \<Rightarrow> results outcome \<times> orchestrator" where
  "execute_all env ids clock max_iterations orch =
     (case execute_loop env ids clock 0 (nat max_iterations) orch (initial_results orch) of
        (Raises e, orch') \<Rightarrow> (Raises e, orch')
      | (Blocks, orch') \<Rightarrow> (Blocks, orch')
      | (Returns res, orch') \<Rightarrow>
          (Returns (res\<lparr>results_cancelled := pending (task_queue orch')\<rparr>), orch'))"

text \<open>Two orchestrators: one with a task for a researcher and no agent at all, and one
  with the same task and a single researcher that has been set offline.\<close>

definition lone_task :: orchestrator where
  "lone_task =
     snd (orch_add_task ''t1'' ''researcher'' ''search'' PyNone 2 [] [] 0 new_orchestrator)"

definition offline_researcher :: orchestrator where
  "offline_researcher =
     (let orch1 = orch_register_agent ''a1'' ''researcher'' [''search''] 0 new_orchestrator;
          orch2 = orch1\<lparr>agent_registry :=
                          update_agent_status ''a1'' ''offline'' 1 (agent_registry orch1)\<rparr>
      in snd (orch_add_task ''t1'' ''researcher'' ''search'' PyNone 2 [] [] 2 orch2))"

text \<open>No agent and no message: the environment that leaves the bus alone.\<close>

definition idle_env :: "nat \<Rightarrow> py message_bus \<Rightarrow> py message_bus" where
  "idle_env i bus = bus"

definition message_ids :: "nat \<Rightarrow> string" where
  "message_ids i = replicate i (CHR ''m'')"
section \<open>Properties of the shared memory\<close>

lemma notify_observers_fields [simp]:
  "data (notify_observers key m) = data m"
  "key_locks (notify_observers key m) = key_locks m"
  "observers (notify_observers key m) = observers m"
  by (simp_all add: notify_observers_def split: option.splits)

lemma version_of_write_same:
  "version_of (sm_write key val writer md now m) key =
     Some (case version_of m key of None \<Rightarrow> 1 | Some n \<Rightarrow> n + 1)"
  by (simp add: sm_write_def Let_def version_of_def update_conv' split: option.splits)

lemma version_of_write_other:
  "k \<noteq> key \<Longrightarrow> version_of (sm_write key val writer md now m) k = version_of m k"
  by (simp add: sm_write_def Let_def version_of_def update_conv')

lemma version_of_step_other:
  "\<not> writes_key opn k \<Longrightarrow> version_of (sm_step opn m) k = version_of m k \<or> version_of (sm_step opn m) k = None"
proof (cases opn)
  case (Write key val writer md now)
  assume "\<not> writes_key opn k"
  with Write have "k \<noteq> key" by auto
  with Write show ?thesis by (simp add: version_of_write_other)
next
  case (Read key dflt)
  then show ?thesis by (simp add: read_def version_of_def split: option.splits)
next
  case (Delete key)
  then show ?thesis by (simp add: delete_def version_of_def delete_conv')
next
  case (Subscribe key cb)
  then show ?thesis by (simp add: subscribe_def Let_def version_of_def)
next
  case (Unsubscribe key cb)
  then show ?thesis by (simp add: unsubscribe_def version_of_def split: option.splits)
next
  case Clear
  then show ?thesis by (simp add: clear_def version_of_def)
qed simp_all

text \<open>
  Claim C7. A write to a key that has no entry creates the entry with version 1; a write
  to a key that has an entry of version \<open>n\<close> leaves an entry of version \<open>n + 1\<close>; and an
  operation that is not a write to the key either leaves the version of the key's entry
  as it was or removes the entry (\<open>delete\<close>, \<open>clear\<close>): only \<open>write\<close> changes a version.
\<close>

theorem write_version_increment:
  "(version_of m key = None \<longrightarrow>
      version_of (sm_write key val writer md now m) key = Some 1)
   \<and> (\<forall>n. version_of m key = Some n \<longrightarrow>
      version_of (sm_write key val writer md now m) key = Some (n + 1))
   \<and> (\<forall>opn. \<not> writes_key opn key \<longrightarrow>
      version_of (sm_step opn m) key = version_of m key \<or> version_of (sm_step opn m) key = None)"
  by (simp add: version_of_write_same version_of_step_other)

theorem write_version_increment_witness:
  "version_of (empty_memory :: nat shared_memory) ''k'' = None
   \<and> version_of (sm_write ''k'' (7::nat) ''a'' None 0 empty_memory) ''k'' = Some 1
   \<and> version_of (sm_write ''k'' (8::nat) ''b'' None 1 (sm_write ''k'' 7 ''a'' None 0 empty_memory)) ''k''
       = Some 2
   \<and> \<not> writes_key (Delete ''j'' :: nat sm_op) ''k''
   \<and> version_of (sm_step (Delete ''j'') (sm_write ''k'' (7::nat) ''a'' None 0 empty_memory)) ''k''
       = Some 1"
proof -
  let ?m0 = "empty_memory :: nat shared_memory"
  let ?m1 = "sm_write ''k'' (7::nat) ''a'' None 0 ?m0"
  have h0: "version_of ?m0 ''k'' = None"
    by (simp add: version_of_def empty_memory_def)
  have a: "version_of ?m1 ''k'' = Some 1"
    using write_version_increment [of ?m0 "''k''" 7 "''a''" None 0] h0 by blast
  have b: "version_of (sm_write ''k'' (8::nat) ''b'' None 1 ?m1) ''k'' = Some 2"
    using write_version_increment [of ?m1 "''k''" 8 "''b''" None 1] a by simp
  have c: "\<not> writes_key (Delete ''j'' :: nat sm_op) ''k''" by simp
  have e: "version_of (sm_step (Delete ''j'') ?m1) ''k'' = version_of ?m1 ''k''
        \<or> version_of (sm_step (Delete ''j'') ?m1) ''k'' = None"
    by (rule write_version_increment [of ?m1 "''k''" 7 "''a''" None 0,
          THEN conjunct2, THEN conjunct2, rule_format, OF c])
  have f: "version_of (sm_step (Delete ''j'') ?m1) ''k'' \<noteq> None"
    by (simp add: version_of_def delete_def sm_write_def empty_memory_def)
  have d: "version_of (sm_step (Delete ''j'') ?m1) ''k'' = Some 1"
    using a e f by presburger
  from h0 a b c d show ?thesis by blast
qed

text \<open>
  Claim C10. When \<open>delete key\<close> returns \<open>True\<close>, the entry, the per-key lock and the
  observers of the key are gone, and the next write to the key creates an entry of version
  1 whatever the version was before: a key that had reached a version above 1 comes back
  with a smaller one, so versions increase only between a creation and the next deletion.
\<close>

theorem delete_then_write_restarts_version:
  "fst (delete key m) \<Longrightarrow>
     map_of (data (snd (delete key m))) key = None
   \<and> key \<notin> set (key_locks (snd (delete key m)))
   \<and> map_of (observers (snd (delete key m))) key = None
   \<and> version_of (sm_write key val writer md now (snd (delete key m))) key = Some 1
   \<and> (\<forall>n. version_of m key = Some n \<and> 1 < n \<longrightarrow>
         (\<exists>n'. version_of (sm_write key val writer md now (snd (delete key m))) key = Some n'
               \<and> n' < n))"
proof -
  assume d: "fst (delete key m)"
  let ?m' = "snd (delete key m)"
  have k: "key \<in> fst ` set (data m)"
    using d by (simp add: delete_def split: if_splits)
  have m': "?m' = m\<lparr>data := AList.delete key (data m),
                     key_locks := removeAll key (key_locks m),
                     observers := AList.delete key (observers m),
                     deletes := deletes m + 1\<rparr>"
    using k by (simp add: delete_def)
  have a: "map_of (data ?m') key = None"
    by (simp add: m' delete_conv')
  have b: "key \<notin> set (key_locks ?m')"
    by (simp add: m')
  have c: "map_of (observers ?m') key = None"
    by (simp add: m' delete_conv')
  have v: "version_of ?m' key = None"
    using a by (simp add: version_of_def)
  have e: "version_of (sm_write key val writer md now ?m') key = Some 1"
    using v by (simp add: version_of_write_same)
  from a b c e show ?thesis by simp
qed

theorem delete_then_write_restarts_version_witness:
  "fst (delete ''k'' (sm_write ''k'' (8::nat) ''b'' None 1 (sm_write ''k'' 7 ''a'' None 0 empty_memory)))
   \<and> version_of (sm_write ''k'' (8::nat) ''b'' None 1 (sm_write ''k'' 7 ''a'' None 0 empty_memory)) ''k'' = Some 2
   \<and> version_of (sm_write ''k'' (9::nat) ''c'' None 2
        (snd (delete ''k'' (sm_write ''k'' 8 ''b'' None 1 (sm_write ''k'' 7 ''a'' None 0 empty_memory))))) ''k''
       = Some 1"
proof -
  let ?m2 = "sm_write ''k'' (8::nat) ''b'' None 1 (sm_write ''k'' 7 ''a'' None 0 empty_memory)"
  have h: "fst (delete ''k'' ?m2)"
    by (simp add: delete_def sm_write_def empty_memory_def)
  have v0: "version_of (empty_memory :: nat shared_memory) ''k'' = None"
    by (simp add: version_of_def empty_memory_def)
  have v1: "version_of (sm_write ''k'' (7::nat) ''a'' None 0 empty_memory) ''k'' = Some 1"
    unfolding version_of_write_same v0 by simp
  have v: "version_of ?m2 ''k'' = Some 2"
    unfolding version_of_write_same v0 by simp
  from delete_then_write_restarts_version [OF h, of 9 "''c''" None 2]
  have "version_of (sm_write ''k'' (9::nat) ''c'' None 2 (snd (delete ''k'' ?m2))) ''k'' = Some 1"
    by (elim conjE)
  with h v show ?thesis by simp
qed

section \<open>Properties of the message bus\<close>

text \<open>
  Claim C8. \<open>send\<close> to a receiver that has no mailbox returns normally: the mailbox is
  created and holds exactly the message sent. \<open>receive\<close> for an agent that has no mailbox
  raises \<open>ValueError\<close> and leaves the bus as it was.
\<close>

theorem send_autoregisters_receive_raises:
  "(receiver msg \<notin> fst ` set (queues bus) \<longrightarrow>
      (\<exists>bus'. send msg bus = Returns bus'
             \<and> map_of (queues bus') (receiver msg) = Some [msg]))
   \<and> (aid \<notin> fst ` set (queues bus) \<longrightarrow>
        receive aid timeout bus = (Raises ValueError, bus))"
proof (intro conjI impI)
  assume r: "receiver msg \<notin> fst ` set (queues bus)"
  have q: "map_of (queues (register_agent (receiver msg) bus)) (receiver msg) = Some []"
    using r by (simp add: register_agent_def update_conv')
  show "\<exists>bus'. send msg bus = Returns bus' \<and> map_of (queues bus') (receiver msg) = Some [msg]"
    using r q by (simp add: send_def Let_def add_to_history_def update_conv')
next
  assume "aid \<notin> fst ` set (queues bus)"
  then have "map_of (queues bus) aid = None"
    by (simp add: map_of_eq_None_iff)
  then show "receive aid timeout bus = (Raises ValueError, bus)"
    by (simp add: receive_def)
qed

theorem send_autoregisters_receive_raises_witness:
  "receiver msg1 \<notin> fst ` set (queues (empty_bus :: nat message_bus))
   \<and> (\<exists>bus'. send msg1 empty_bus = Returns bus' \<and> map_of (queues bus') ''b'' = Some [msg1])
   \<and> ''c'' \<notin> fst ` set (queues (empty_bus :: nat message_bus))
   \<and> receive ''c'' (Some 1) (empty_bus :: nat message_bus) = (Raises ValueError, empty_bus)"
proof -
  have r: "receiver msg1 \<notin> fst ` set (queues (empty_bus :: nat message_bus))"
    by (simp add: empty_bus_def)
  have c: "''c'' \<notin> fst ` set (queues (empty_bus :: nat message_bus))"
    by (simp add: empty_bus_def)
  have b: "receiver msg1 = ''b''" by (simp add: msg1_def)
  from send_autoregisters_receive_raises [of msg1 empty_bus "''c''" "Some 1"] r c b
  show ?thesis by simp
qed

section \<open>Properties of the agent registry\<close>

lemma agent_inv_matches: "agent_inv a \<Longrightarrow> status_matches_workload a"
  by (auto simp: agent_inv_def status_matches_workload_def)

lemma agent_inv_fresh: "agent_inv (fresh_agent aid atype nm caps now)"
  by (simp add: agent_inv_def fresh_agent_def)

lemma agent_inv_increment: "agent_inv a \<Longrightarrow> agent_inv (increment_workload now a)"
  by (simp add: agent_inv_def increment_workload_def update_activity_def)

lemma agent_inv_decrement: "agent_inv a \<Longrightarrow> agent_inv (decrement_workload now a)"
  by (auto simp: agent_inv_def decrement_workload_def update_activity_def Let_def max_def)

lemma agent_inv_complete: "agent_inv a \<Longrightarrow> agent_inv (agent_complete_task now a)"
  unfolding agent_complete_task_def by (rule agent_inv_decrement) (simp add: agent_inv_def)

lemma agent_inv_fail: "agent_inv a \<Longrightarrow> agent_inv (agent_fail_task now a)"
  unfolding agent_fail_task_def by (rule agent_inv_decrement) (simp add: agent_inv_def)

lemma agent_inv_offline: "agent_inv a \<Longrightarrow> agent_inv (update_activity now (a\<lparr>status := ''offline''\<rparr>))"
  by (simp add: agent_inv_def update_activity_def)

lemma nonneg_steps:
  "nonneg (fresh_agent aid atype nm caps now)"
  "nonneg a \<Longrightarrow> nonneg (increment_workload now a)"
  "nonneg (decrement_workload now a)"
  "nonneg (agent_complete_task now a)"
  "nonneg (agent_fail_task now a)"
  "nonneg a \<Longrightarrow> nonneg (update_activity now (a\<lparr>status := st\<rparr>))"
  by (simp_all add: nonneg_def fresh_agent_def increment_workload_def decrement_workload_def
        agent_complete_task_def agent_fail_task_def update_activity_def Let_def)

lemma all_agents_on_agent:
  "all_agents P r \<Longrightarrow> (\<And>a. P a \<Longrightarrow> P (f a)) \<Longrightarrow> all_agents P (on_agent aid f r)"
  by (auto simp: all_agents_def on_agent_def update_conv' split: option.splits if_splits)

lemma all_agents_register:
  "all_agents P r \<Longrightarrow> P (fresh_agent aid atype nm caps now)
     \<Longrightarrow> all_agents P (snd (register aid atype nm caps now r))"
  by (auto simp: all_agents_def register_def Let_def update_conv' split: if_splits)

lemma all_agents_unregister: "all_agents P r \<Longrightarrow> all_agents P (unregister aid r)"
  by (auto simp: all_agents_def unregister_def delete_conv' split: option.splits if_splits)

lemma all_agents_clear: "all_agents P (clear_registry r)"
  by (simp add: all_agents_def clear_registry_def)

lemma all_agents_empty: "all_agents P empty_registry"
  by (simp add: all_agents_def empty_registry_def)

lemma nonneg_step: "all_agents nonneg r \<Longrightarrow> all_agents nonneg (registry_step r opn)"
proof (cases opn)
  case (RecordTaskCompletion aid success now)
  assume "all_agents nonneg r"
  then show ?thesis unfolding RecordTaskCompletion registry_step.simps record_task_completion_def
    by (rule all_agents_on_agent) (simp add: nonneg_steps)
qed (simp_all add: all_agents_register all_agents_unregister all_agents_clear all_agents_on_agent
       nonneg_steps update_agent_status_def increment_agent_workload_def
       decrement_agent_workload_def)

lemma agent_inv_step:
  "all_agents agent_inv r \<Longrightarrow> sets_only_offline opn \<Longrightarrow> all_agents agent_inv (registry_step r opn)"
proof (cases opn)
  case (RecordTaskCompletion aid success now)
  assume "all_agents agent_inv r"
  then show ?thesis unfolding RecordTaskCompletion registry_step.simps record_task_completion_def
    by (rule all_agents_on_agent) (simp add: agent_inv_complete agent_inv_fail)
qed (simp_all add: all_agents_register all_agents_unregister all_agents_clear all_agents_on_agent
       agent_inv_fresh agent_inv_increment agent_inv_decrement agent_inv_offline
       update_agent_status_def increment_agent_workload_def decrement_agent_workload_def)

lemma nonneg_run: "all_agents nonneg (run_registry ops)"
  unfolding run_registry_def
  by (induction ops rule: rev_induct) (simp_all add: all_agents_empty nonneg_step)

lemma agent_inv_run: "list_all sets_only_offline ops \<Longrightarrow> all_agents agent_inv (run_registry ops)"
  unfolding run_registry_def
  by (induction ops rule: rev_induct) (simp_all add: all_agents_empty agent_inv_step)

text \<open>
  Claim C4, as the code has it. After any sequence of registry operations the workload of
  every record is non-negative. When \<open>update_agent_status\<close> is only used to set
  \<open>offline\<close>, every record also satisfies the invariant of the data model: unless it is
  offline, it is idle exactly at workload 0 and busy exactly at a positive workload.
\<close>

theorem workload_status_invariant:
  "map_of (agents (run_registry ops)) aid = Some a \<Longrightarrow>
     0 \<le> workload a \<and> (list_all sets_only_offline ops \<longrightarrow> status_matches_workload a)"
  using nonneg_run [of ops] agent_inv_run [of ops]
  by (auto simp: all_agents_def nonneg_def intro: agent_inv_matches)

theorem workload_status_invariant_witness:
  "map_of (agents (run_registry
      [Register ''a'' ''researcher'' ''A'' [] 0, IncrementAgentWorkload ''a'' 1,
       IncrementAgentWorkload ''a'' 2, UpdateAgentStatus ''a'' ''offline'' 3,
       DecrementAgentWorkload ''a'' 4])) ''a'' = Some offline_at_one
   \<and> list_all sets_only_offline
      [Register ''a'' ''researcher'' ''A'' [] 0, IncrementAgentWorkload ''a'' 1,
       IncrementAgentWorkload ''a'' 2, UpdateAgentStatus ''a'' ''offline'' 3,
       DecrementAgentWorkload ''a'' 4]
   \<and> 0 \<le> workload offline_at_one \<and> status_matches_workload offline_at_one"
proof -
  let ?ops = "[Register ''a'' ''researcher'' ''A'' [] 0, IncrementAgentWorkload ''a'' 1,
       IncrementAgentWorkload ''a'' 2, UpdateAgentStatus ''a'' ''offline'' 3,
       DecrementAgentWorkload ''a'' 4]"
  have h: "map_of (agents (run_registry ?ops)) ''a'' = Some offline_at_one"
    by (simp add: run_registry_def empty_registry_def register_def fresh_agent_def
          increment_agent_workload_def decrement_agent_workload_def update_agent_status_def
          on_agent_def increment_workload_def decrement_workload_def update_activity_def
          offline_at_one_def Let_def)
  have l: "list_all sets_only_offline ?ops" by simp
  from workload_status_invariant [OF h] l h show ?thesis by blast
qed

text \<open>
  Claim C4 as it is written fails: \<open>update_agent_status\<close> stores whatever status it is
  given, so a freshly registered agent can be made busy at workload 0.
\<close>

theorem workload_status_invariant_counterexample:
  "map_of (agents (run_registry
      [Register ''a'' ''researcher'' ''A'' [] 0, UpdateAgentStatus ''a'' ''busy'' 1])) ''a''
     = Some busy_at_zero
   \<and> \<not> status_matches_workload busy_at_zero"
  by (simp add: run_registry_def empty_registry_def register_def fresh_agent_def
        update_agent_status_def on_agent_def update_activity_def busy_at_zero_def
        status_matches_workload_def Let_def)

subsection \<open>The indices after a second registration\<close>

lemma index_get_add_same:
  "index_get (index_add k x idx) k =
     (if x \<in> set (index_get idx k) then index_get idx k else index_get idx k @ [x])"
  unfolding index_add_def Let_def index_get_def
  by (simp add: update_conv')

lemma index_get_add_other:
  "k' \<noteq> k \<Longrightarrow> index_get (index_add k x idx) k' = index_get idx k'"
  unfolding index_add_def Let_def index_get_def
  by (simp add: update_conv')

lemma index_get_add:
  "set (index_get (index_add k x idx) k') =
     (if k' = k then insert x (set (index_get idx k)) else set (index_get idx k'))"
proof (cases "k' = k")
  case True
  show ?thesis unfolding True index_get_add_same by auto
next
  case False
  then show ?thesis by (simp add: index_get_add_other)
qed

lemma index_get_fold_add:
  "set (index_get (fold (\<lambda>c i. index_add c x i) cs idx) k') =
     (if k' \<in> set cs then insert x (set (index_get idx k')) else set (index_get idx k'))"
  by (induction cs arbitrary: idx) (auto simp: index_get_add)

lemma index_get_discard:
  "set (index_get (index_discard k x idx) k') =
     (if k' = k then set (index_get idx k) - {x} else set (index_get idx k'))"
  by (cases "map_of idx k"; cases "k' = k")
     (auto simp: index_get_def index_discard_def update_conv')

lemma index_get_fold_discard:
  "set (index_get (fold (\<lambda>c i. index_discard c x i) cs idx) k') =
     (if k' \<in> set cs then set (index_get idx k') - {x} else set (index_get idx k'))"
  by (induction cs arbitrary: idx) (auto simp: index_get_discard)

lemma all_indexed_register:
  "all_indexed r \<Longrightarrow> all_indexed (snd (register aid atype nm caps now r))"
  by (auto simp: all_indexed_def indexed_def register_def Let_def update_conv'
        index_get_add index_get_fold_add fresh_agent_def split: if_splits)

lemma all_indexed_unregister:
  assumes "all_indexed r"
  shows "all_indexed (unregister aid r)"
proof (cases "map_of (agents r) aid")
  case None
  with assms show ?thesis by (simp add: unregister_def)
next
  case (Some info)
  show ?thesis
    unfolding all_indexed_def
  proof (intro allI impI)
    fix b a
    assume "map_of (agents (unregister aid r)) b = Some a"
    with Some have ba: "b \<noteq> aid" and a: "map_of (agents r) b = Some a"
      by (auto simp: unregister_def delete_conv' split: if_splits)
    from assms a have "indexed b a r" by (simp add: all_indexed_def)
    with ba Some show "indexed b a (unregister aid r)"
      by (auto simp: indexed_def unregister_def index_get_discard index_get_fold_discard)
  qed
qed

lemma all_indexed_on_agent:
  "all_indexed r \<Longrightarrow> (\<And>a. agent_type (f a) = agent_type a \<and> capabilities (f a) = capabilities a)
     \<Longrightarrow> all_indexed (on_agent aid f r)"
  by (auto simp: all_indexed_def indexed_def on_agent_def update_conv' split: option.splits if_splits)

lemma all_indexed_step: "all_indexed r \<Longrightarrow> all_indexed (registry_step r opn)"
proof (cases opn)
  case (RecordTaskCompletion aid success now)
  assume "all_indexed r"
  then show ?thesis unfolding RecordTaskCompletion registry_step.simps record_task_completion_def
    by (rule all_indexed_on_agent)
       (simp add: agent_complete_task_def agent_fail_task_def decrement_workload_def
          update_activity_def Let_def)
next
  case ClearRegistry
  then show ?thesis by (simp add: all_indexed_def clear_registry_def)
qed (simp_all add: all_indexed_register all_indexed_unregister all_indexed_on_agent
       update_agent_status_def increment_agent_workload_def decrement_agent_workload_def
       increment_workload_def decrement_workload_def update_activity_def Let_def)

lemma all_indexed_run: "all_indexed (run_registry ops)"
  unfolding run_registry_def
  by (induction ops rule: rev_induct)
     (simp_all add: all_indexed_step, simp add: all_indexed_def empty_registry_def)

lemma lookup_agents_registered:
  "set aids \<subseteq> fst ` set (agents r) \<Longrightarrow>
     \<exists>infos. lookup_agents r aids = Inr infos \<and>
       (\<forall>aid \<in> set aids. \<forall>a. map_of (agents r) aid = Some a \<longrightarrow> a \<in> set infos)"
proof (induction aids)
  case Nil
  then show ?case by simp
next
  case (Cons aid aids)
  from Cons.prems have "aid \<in> fst ` set (agents r)" by simp
  then obtain a where a: "map_of (agents r) aid = Some a"
    by (metis map_of_eq_None_iff not_Some_eq)
  from Cons obtain infos where i: "lookup_agents r aids = Inr infos"
    and m: "\<forall>aid \<in> set aids. \<forall>a. map_of (agents r) aid = Some a \<longrightarrow> a \<in> set infos"
    by auto
  show ?case using a i m by auto
qed

lemma lookup_agents_map:
  "set aids \<subseteq> fst ` set (agents r) \<Longrightarrow>
     lookup_agents r aids = Inr (map (\<lambda>i. the (map_of (agents r) i)) aids)"
proof (induction aids)
  case Nil
  then show ?case by simp
next
  case (Cons aid aids)
  from Cons.prems have "aid \<in> fst ` set (agents r)" by simp
  then obtain a where a: "map_of (agents r) aid = Some a"
    by (metis map_of_eq_None_iff not_Some_eq)
  from Cons have "lookup_agents r aids = Inr (map (\<lambda>i. the (map_of (agents r) i)) aids)"
    by simp
  with a show ?case by simp
qed

lemma min_workload_keeps:
  "\<forall>b \<in> set bs. workload a \<le> workload b \<Longrightarrow> min_workload a bs = a"
  by (induction bs) auto

lemma min_workload_later:
  "workload x < workload c \<Longrightarrow> \<forall>b \<in> set cs. workload x < workload b
     \<Longrightarrow> \<forall>b \<in> set bs. workload x \<le> workload b
     \<Longrightarrow> min_workload c (cs @ x # bs) = x"
proof (induction cs arbitrary: c)
  case Nil
  then show ?case by (simp add: min_workload_keeps)
next
  case (Cons d cs)
  then show ?case by simp
qed

lemma least_loaded_first_minimal:
  assumes "available x"
      and "\<forall>b \<in> set pre. available b \<longrightarrow> workload x < workload b"
      and "\<forall>b \<in> set post. available b \<longrightarrow> workload x \<le> workload b"
  shows "least_loaded (pre @ x # post) = Some x"
proof -
  have f: "filter available (pre @ x # post) = filter available pre @ x # filter available post"
    using assms(1) by simp
  have post: "\<forall>b \<in> set (filter available post). workload x \<le> workload b"
    using assms(3) by simp
  show ?thesis
  proof (cases "filter available pre")
    case Nil
    with f post show ?thesis by (simp add: least_loaded_def min_workload_keeps)
  next
    case (Cons c cs)
    have "set (c # cs) = {b \<in> set pre. available b}"
      unfolding Cons [symmetric] by simp
    with assms(2) have "workload x < workload c" "\<forall>b \<in> set cs. workload x < workload b"
      by auto
    with post have "min_workload c (cs @ x # filter available post) = x"
      by (simp add: min_workload_later)
    with f Cons show ?thesis by (simp add: least_loaded_def)
  qed
qed

lemma given_Some: "t \<noteq> [] \<Longrightarrow> given (Some t) = Some t"
  by (simp add: given_def)

text \<open>
  Claim C9, as amended. Registering an identifier again under another type stores a fresh
  record (type as given, workload and counters 0) and leaves the identifier in the index
  of the old type and in the indices of the old capabilities. If every identifier in the
  index of the old type is registered, \<open>find_by_type\<close> on the old type returns a list
  that holds the fresh record. If the old type is not the empty string, the other
  identifiers of that index are registered and no available agent with workload 0 comes
  before this one in the iteration order of the index, \<open>find_available_agent\<close> on the
  old type returns the fresh record.
\<close>

theorem reregister_keeps_old_type_index:
  assumes reg: "map_of (agents (run_registry ops)) aid = Some old"
      and diff: "atype \<noteq> agent_type old"
  shows "map_of (agents (snd (register aid atype nm caps now (run_registry ops)))) aid
           = Some (fresh_agent aid atype nm caps now)
    \<and> agent_type (fresh_agent aid atype nm caps now) = atype
    \<and> workload (fresh_agent aid atype nm caps now) = 0
    \<and> total_tasks_completed (fresh_agent aid atype nm caps now) = 0
    \<and> total_tasks_failed (fresh_agent aid atype nm caps now) = 0
    \<and> aid \<in> set (index_get (agents_by_type (snd (register aid atype nm caps now (run_registry ops))))
                      (agent_type old))
    \<and> (\<forall>c \<in> set (capabilities old).
          aid \<in> set (index_get
                 (agents_by_capability (snd (register aid atype nm caps now (run_registry ops)))) c))
    \<and> (set (index_get (agents_by_type (snd (register aid atype nm caps now (run_registry ops))))
               (agent_type old))
          \<subseteq> fst ` set (agents (snd (register aid atype nm caps now (run_registry ops))))
        \<longrightarrow> (\<exists>infos. find_by_type (agent_type old)
                        (snd (register aid atype nm caps now (run_registry ops))) = Inr infos
                    \<and> fresh_agent aid atype nm caps now \<in> set infos))
    \<and> (\<forall>pre post.
          index_get (agents_by_type (snd (register aid atype nm caps now (run_registry ops))))
            (agent_type old) = pre @ aid # post
          \<and> agent_type old \<noteq> []
          \<and> set (pre @ post)
               \<subseteq> fst ` set (agents (snd (register aid atype nm caps now (run_registry ops))))
          \<and> (\<forall>b \<in> set pre. \<forall>a.
                 map_of (agents (snd (register aid atype nm caps now (run_registry ops)))) b = Some a
                 \<longrightarrow> available a \<longrightarrow> 0 < workload a)
        \<longrightarrow> find_available_agent (Some (agent_type old)) None
              (snd (register aid atype nm caps now (run_registry ops)))
            = Inr (Some (fresh_agent aid atype nm caps now)))"
proof -
  let ?r = "run_registry ops"
  let ?r' = "snd (register aid atype nm caps now ?r)"
  let ?info = "fresh_agent aid atype nm caps now"
  let ?T = "agent_type old"
  let ?f = "\<lambda>i. the (map_of (agents ?r') i)"
  have a: "map_of (agents ?r') aid = Some ?info"
    by (simp add: register_def Let_def update_conv')
  have fa: "?f aid = ?info" using a by simp
  have b: "agent_type ?info = atype" "workload ?info = 0"
    "total_tasks_completed ?info = 0" "total_tasks_failed ?info = 0" "available ?info"
    by (simp_all add: fresh_agent_def available_def)
  have old: "indexed aid old ?r"
    using all_indexed_run [of ops] reg by (simp add: all_indexed_def)
  have ty: "index_get (agents_by_type ?r') ?T = index_get (agents_by_type ?r) ?T"
    using diff by (simp add: register_def Let_def index_get_add_other)
  have c: "aid \<in> set (index_get (agents_by_type ?r') ?T)"
    using old ty by (simp add: indexed_def)
  have d: "\<forall>c \<in> set (capabilities old). aid \<in> set (index_get (agents_by_capability ?r') c)"
    using old by (simp add: indexed_def register_def Let_def index_get_fold_add)
  have e: "\<exists>infos. find_by_type ?T ?r' = Inr infos \<and> ?info \<in> set infos"
    if sub: "set (index_get (agents_by_type ?r') ?T) \<subseteq> fst ` set (agents ?r')"
  proof -
    have "find_by_type ?T ?r' = Inr (map ?f (index_get (agents_by_type ?r') ?T))"
      unfolding find_by_type_def using sub by (rule lookup_agents_map)
    moreover have "?f aid \<in> ?f ` set (index_get (agents_by_type ?r') ?T)"
      using c by (rule imageI)
    then have "?info \<in> set (map ?f (index_get (agents_by_type ?r') ?T))"
      unfolding fa set_map .
    ultimately show ?thesis by blast
  qed
  have nn: "all_agents nonneg ?r'"
    using nonneg_step [OF nonneg_run, of ops "Register aid atype nm caps now"] by simp
  have f: "find_available_agent (Some ?T) None ?r' = Inr (Some ?info)"
    if ids: "index_get (agents_by_type ?r') ?T = pre @ aid # post"
      and ne: "?T \<noteq> []"
      and sub: "set (pre @ post) \<subseteq> fst ` set (agents ?r')"
      and pre: "\<forall>b \<in> set pre. \<forall>a. map_of (agents ?r') b = Some a \<longrightarrow> available a \<longrightarrow> 0 < workload a"
    for pre post
  proof -
    have ad: "aid \<in> dom (map_of (agents ?r'))"
      using a by (rule domI)
    have sub': "set (index_get (agents_by_type ?r') ?T) \<subseteq> fst ` set (agents ?r')"
      unfolding ids using sub ad by (simp add: dom_map_of_conv_image_fst)
    have dom: "map_of (agents ?r') i = Some (?f i)" if "i \<in> set (pre @ aid # post)" for i
    proof -
      from that sub' ids have "i \<in> dom (map_of (agents ?r'))"
        by (auto simp: dom_map_of_conv_image_fst)
      then show ?thesis by (auto simp: dom_def)
    qed
    have "find_by_type ?T ?r' = Inr (map ?f (index_get (agents_by_type ?r') ?T))"
      unfolding find_by_type_def using sub' by (rule lookup_agents_map)
    then have fb: "find_by_type ?T ?r' = Inr (map ?f pre @ ?info # map ?f post)"
      by (simp add: ids fa)
    have p1: "\<forall>x \<in> set (map ?f pre). available x \<longrightarrow> workload ?info < workload x"
    proof (intro ballI impI)
      fix x assume "x \<in> set (map ?f pre)" and av: "available x"
      then obtain i where i: "i \<in> set pre" and x: "x = ?f i" by auto
      from i have "map_of (agents ?r') i = Some x" unfolding x by (intro dom) simp
      with pre i av have "0 < workload x" by blast
      then show "workload ?info < workload x" by (simp add: b(2))
    qed
    have p2: "\<forall>x \<in> set (map ?f post). available x \<longrightarrow> workload ?info \<le> workload x"
    proof (intro ballI impI)
      fix x assume "x \<in> set (map ?f post)"
      then obtain i where i: "i \<in> set post" and x: "x = ?f i" by auto
      from i have "map_of (agents ?r') i = Some x" unfolding x by (intro dom) simp
      with nn have "0 \<le> workload x" unfolding all_agents_def nonneg_def by blast
      then show "workload ?info \<le> workload x" by (simp add: b(2))
    qed
    have "least_loaded (map ?f pre @ ?info # map ?f post) = Some ?info"
      using b(5) p1 p2 by (rule least_loaded_first_minimal)
    then show ?thesis
      by (simp add: find_available_agent_def given_Some [OF ne] fb)
  qed
  show ?thesis
    apply (intro conjI allI impI)
            apply (rule a)
           apply (rule b(1))
          apply (rule b(2))
         apply (rule b(3))
        apply (rule b(4))
       apply (rule c)
      apply (rule d)
     apply (erule e)
    apply (elim conjE)
    apply (erule (3) f)
    done
qed

theorem reregister_keeps_old_type_index_witness:
  "map_of (agents (run_registry two_researchers)) ''a''
     = Some (fresh_agent ''a'' ''researcher'' ''A'' [''search''] 2)
   \<and> ''analyst'' \<noteq> agent_type (fresh_agent ''a'' ''researcher'' ''A'' [''search''] 2)
   \<and> index_get (agents_by_type (snd (register ''a'' ''analyst'' ''A'' [] 3 (run_registry two_researchers))))
         ''researcher'' = [''b'', ''a'']
   \<and> ''a'' \<in> set (index_get
         (agents_by_capability (snd (register ''a'' ''analyst'' ''A'' [] 3 (run_registry two_researchers))))
         ''search'')
   \<and> find_available_agent (Some ''researcher'') None
         (snd (register ''a'' ''analyst'' ''A'' [] 3 (run_registry two_researchers)))
       = Inr (Some (fresh_agent ''a'' ''analyst'' ''A'' [] 3))"
proof -
  let ?old = "fresh_agent ''a'' ''researcher'' ''A'' [''search''] 2"
  let ?r' = "snd (register ''a'' ''analyst'' ''A'' [] 3 (run_registry two_researchers))"
  have h1: "map_of (agents (run_registry two_researchers)) ''a'' = Some ?old"
    by (simp add: two_researchers_def run_registry_def empty_registry_def register_def
          increment_agent_workload_def on_agent_def Let_def)
  have h2: "''analyst'' \<noteq> agent_type ?old"
    by (simp add: fresh_agent_def)
  have ty: "agent_type ?old = ''researcher''" and cp: "capabilities ?old = [''search'']"
    by (simp_all add: fresh_agent_def)
  note t = reregister_keeps_old_type_index [OF h1 h2, of "''A''" "[]" 3, unfolded ty cp]
  have ids: "index_get (agents_by_type ?r') ''researcher'' = [''b''] @ ''a'' # []"
    by (simp add: two_researchers_def run_registry_def empty_registry_def register_def
          increment_agent_workload_def on_agent_def index_add_def index_get_def Let_def)
  have sub: "set ([''b''] @ []) \<subseteq> fst ` set (agents ?r')"
    by (simp add: two_researchers_def run_registry_def empty_registry_def register_def
          increment_agent_workload_def on_agent_def Let_def)
  have pre: "\<forall>b \<in> set [''b'']. \<forall>a. map_of (agents ?r') b = Some a \<longrightarrow> available a \<longrightarrow> 0 < workload a"
    by (simp add: two_researchers_def run_registry_def empty_registry_def register_def
          increment_agent_workload_def on_agent_def increment_workload_def update_activity_def
          fresh_agent_def Let_def)
  have ne: "''researcher'' \<noteq> []" by simp
  have cap: "''a'' \<in> set (index_get (agents_by_capability ?r') ''search'')"
    using t by simp
  have fa: "find_available_agent (Some ''researcher'') None ?r'
              = Inr (Some (fresh_agent ''a'' ''analyst'' ''A'' [] 3))"
    using t ids ne sub pre by blast
  from h1 h2 ids cap fa show ?thesis by simp
qed

text \<open>
  Claim C9 as it is written fails for \<open>find_available_agent\<close> in two ways. When the old
  type is the empty string the query is not restricted at all (\<open>if agent_type:\<close>) and
  every agent is a candidate, in the order of the dictionary \<open>agents\<close>. And among
  candidates of equal workload \<open>min\<close> keeps the first in the iteration order, so that an
  idle agent of the old type that comes before this one is returned.
\<close>

theorem reregister_keeps_old_type_index_counterexample:
  "map_of (agents (run_registry untyped_agent)) ''a'' = Some (fresh_agent ''a'' [] ''A'' [] 1)
   \<and> ''analyst'' \<noteq> agent_type (fresh_agent ''a'' [] ''A'' [] 1)
   \<and> find_by_type []
         (snd (register ''a'' ''analyst'' ''A'' [] 2 (run_registry untyped_agent)))
       = Inr [fresh_agent ''a'' ''analyst'' ''A'' [] 2]
   \<and> find_available_agent (Some []) None
         (snd (register ''a'' ''analyst'' ''A'' [] 2 (run_registry untyped_agent)))
       = Inr (Some (fresh_agent ''b'' ''researcher'' ''B'' [] 0))
   \<and> map_of (agents (run_registry idle_researchers)) ''a''
       = Some (fresh_agent ''a'' ''researcher'' ''A'' [] 1)
   \<and> ''analyst'' \<noteq> agent_type (fresh_agent ''a'' ''researcher'' ''A'' [] 1)
   \<and> index_get
         (agents_by_type (snd (register ''a'' ''analyst'' ''A'' [] 2 (run_registry idle_researchers))))
         ''researcher'' = [''b'', ''a'']
   \<and> find_available_agent (Some ''researcher'') None
         (snd (register ''a'' ''analyst'' ''A'' [] 2 (run_registry idle_researchers)))
       = Inr (Some (fresh_agent ''b'' ''researcher'' ''B'' [] 0))"
  by code_simp

section \<open>Properties of the priority queue\<close>

text \<open>\<open>heappush\<close> and \<open>heappop\<close> only move the entries of the list: what is pushed stays
  until it is popped, and nothing else comes out.\<close>

lemma mset_update_via:
  assumes "p < length heap" "c < length heap"
  shows "mset (heap[p := heap ! c, c := x]) = mset (heap[p := x])"
proof (cases "c = p")
  case True
  then show ?thesis by simp
next
  case False
  let ?L = "heap[p := x]"
  have "mset (?L[p := ?L ! c, c := ?L ! p]) = mset ?L"
    by (rule mset_swap) (use assms in simp_all)
  moreover have "?L[p := ?L ! c, c := ?L ! p] = heap[p := heap ! c, c := x]"
    using assms False by (simp add: nth_list_update)
  ultimately show ?thesis by simp
qed

lemma siftdown_loop_length [simp]:
  "length (siftdown_loop lt heap newitem startpos pos) = length heap"
  by (induction lt heap newitem startpos pos rule: siftdown_loop.induct)
     (subst siftdown_loop.simps, simp add: Let_def)

lemma mset_siftdown_loop:
  "pos < length heap \<Longrightarrow>
     mset (siftdown_loop lt heap newitem startpos pos) = mset (heap[pos := newitem])"
proof (induction lt heap newitem startpos pos rule: siftdown_loop.induct)
  case (1 lt heap newitem startpos pos)
  show ?case
  proof (cases "pos > startpos \<and> lt newitem (heap ! ((pos - 1) div 2))")
    case True
    let ?pp = "(pos - 1) div 2"
    have pp: "?pp < length heap" using "1.prems" by simp
    have "mset (siftdown_loop lt (heap[pos := heap ! ?pp]) newitem startpos ?pp)
            = mset (heap[pos := heap ! ?pp, ?pp := newitem])"
      using "1.IH" [OF _ refl refl] True pp by simp
    also have "\<dots> = mset (heap[pos := newitem])"
      using "1.prems" pp by (rule mset_update_via)
    finally show ?thesis
      using True by (subst siftdown_loop.simps) (simp add: Let_def)
  next
    case False
    then show ?thesis by (subst siftdown_loop.simps) (auto simp: Let_def)
  qed
qed

lemma mset_siftdown: "pos < length heap \<Longrightarrow> mset (siftdown lt heap startpos pos) = mset heap"
  by (simp add: siftdown_def mset_siftdown_loop)

lemma siftup_loop_props:
  "siftup_loop lt heap endpos pos = (h', p') \<Longrightarrow> pos < length heap \<Longrightarrow> endpos \<le> length heap
     \<Longrightarrow> length h' = length heap \<and> p' < length heap
         \<and> mset (h'[p' := x]) = mset (heap[pos := x])"
proof (induction lt heap endpos pos arbitrary: h' p' rule: siftup_loop.induct)
  case (1 lt heap endpos pos)
  let ?c = "2 * pos + 1"
  show ?case
  proof (cases "?c < endpos")
    case True
    let ?c' = "if ?c + 1 < endpos \<and> \<not> lt (heap ! ?c) (heap ! (?c + 1)) then ?c + 1 else ?c"
    have c': "?c' < length heap" using True "1.prems"(3) by auto
    have rec: "siftup_loop lt (heap[pos := heap ! ?c']) endpos ?c' = (h', p')"
      using "1.prems"(1) True
      by (subst (asm) siftup_loop.simps) (auto simp: Let_def split: if_splits)
    have "length h' = length (heap[pos := heap ! ?c']) \<and> p' < length (heap[pos := heap ! ?c'])
          \<and> mset (h'[p' := x]) = mset (heap[pos := heap ! ?c', ?c' := x])"
      using "1.IH" [OF refl True refl refl rec] c' "1.prems"(3) by simp
    moreover have "mset (heap[pos := heap ! ?c', ?c' := x]) = mset (heap[pos := x])"
      using "1.prems"(2) c' by (rule mset_update_via)
    ultimately show ?thesis by simp
  next
    case False
    then have "h' = heap" "p' = pos"
      using "1.prems"(1) by (subst (asm) siftup_loop.simps, simp add: Let_def)+
    then show ?thesis using "1.prems" by simp
  qed
qed

lemma mset_siftup: "pos < length heap \<Longrightarrow> mset (siftup lt heap pos) = mset heap"
proof -
  assume p: "pos < length heap"
  obtain h' p' where l: "siftup_loop lt heap (length heap) pos = (h', p')"
    by (cases "siftup_loop lt heap (length heap) pos")
  from siftup_loop_props [OF l p, of "heap ! pos"]
  have "length h' = length heap" "p' < length heap" "mset (h'[p' := heap ! pos]) = mset heap"
    by simp_all
  then show ?thesis
    by (simp add: siftup_def l mset_siftdown)
qed

lemma mset_heappush: "mset (heappush lt heap item) = add_mset item (mset heap)"
  by (simp add: heappush_def mset_siftdown)

lemma mset_heappop:
  "heap \<noteq> [] \<Longrightarrow> \<exists>x rest. heappop lt heap = Inr (x, rest) \<and> mset heap = add_mset x (mset rest)"
proof -
  assume ne: "heap \<noteq> []"
  then obtain xs l where h: "heap = xs @ [l]"
    by (metis append_butlast_last_id)
  show ?thesis
  proof (cases "xs = []")
    case True
    then show ?thesis by (simp add: h heappop_def)
  next
    case False
    then have "mset (siftup lt (xs[0 := l]) 0) = mset (xs[0 := l])"
      by (simp add: mset_siftup)
    moreover have "add_mset (xs ! 0) (mset (xs[0 := l])) = add_mset l (mset xs)"
      using False by (cases xs) simp_all
    ultimately show ?thesis
      using False by (simp add: h heappop_def Let_def)
  qed
qed

section \<open>Properties of the task queue\<close>

lemma set_heappush: "set (heappush lt heap item) = insert item (set heap)"
  using mset_heappush [of lt heap item] by (metis set_mset_add_mset_insert set_mset_mset)

lemma can_execute_iff:
  "can_execute q t = (\<forall>d \<in> set (dependencies t). d \<in> set (completed q))"
  by (auto simp: can_execute_def list_all_iff)

lemma priority_queue_get_cases:
  "priority_queue_get lt timeout heap = Returns (x, rest)
     \<Longrightarrow> heap \<noteq> [] \<and> heappop lt heap = Inr (x, rest) \<and> mset heap = add_mset x (mset rest)"
proof -
  assume g: "priority_queue_get lt timeout heap = Returns (x, rest)"
  then have ne: "heap \<noteq> []"
    by (auto simp: priority_queue_get_def split: option.splits if_splits)
  from mset_heappop [OF ne, of lt] obtain y r
    where p: "heappop lt heap = Inr (y, r)" and m: "mset heap = add_mset y (mset r)" by blast
  with g ne have "y = x" "r = rest"
    by (auto simp: priority_queue_get_def split: option.splits if_splits)
  with ne p m show ?thesis by simp
qed

lemma priority_queue_get_valid:
  "valid_timeout timeout \<Longrightarrow> heap \<noteq> [] \<Longrightarrow>
     \<exists>x rest. priority_queue_get lt timeout heap = Returns (x, rest)
       \<and> heappop lt heap = Inr (x, rest)"
proof -
  assume v: "valid_timeout timeout" and ne: "heap \<noteq> []"
  from mset_heappop [OF ne, of lt] obtain y r where p: "heappop lt heap = Inr (y, r)" by blast
  with v ne show ?thesis
    by (auto simp: priority_queue_get_def valid_timeout_def split: option.splits)
qed

lemma on_task_fields [simp]:
  "queue (on_task tid f q) = queue q"
  "pending (on_task tid f q) = pending q"
  "in_progress (on_task tid f q) = in_progress q"
  "completed (on_task tid f q) = completed q"
  "failed (on_task tid f q) = failed q"
  "fst ` set (tasks (on_task tid f q)) = fst ` set (tasks q)"
  by (auto simp: on_task_def dom_update [unfolded dom_map_of_conv_image_fst]
        dest: map_of_SomeD intro: rev_image_eqI split: option.splits)

lemma map_of_on_task:
  "map_of (tasks (on_task tid f q)) k =
     (if k = tid then map_option f (map_of (tasks q) tid) else map_of (tasks q) k)"
  by (auto simp: on_task_def update_conv' split: option.splits)

lemma keeps_tasks_refl: "keeps_tasks q q"
  by (simp add: keeps_tasks_def)

lemma keeps_tasks_trans:
  assumes "keeps_tasks q q'" "keeps_tasks q' q''"
  shows "keeps_tasks q q''"
  unfolding keeps_tasks_def
proof (intro conjI allI impI)
  fix k t assume "map_of (tasks q) k = Some t"
  with assms(1) obtain t' where t': "map_of (tasks q') k = Some t'"
      "priority t' = priority t" "dependencies t' = dependencies t"
    unfolding keeps_tasks_def by blast
  with assms(2) obtain t'' where "map_of (tasks q'') k = Some t''"
      "priority t'' = priority t'" "dependencies t'' = dependencies t'"
    unfolding keeps_tasks_def by blast
  with t' show "\<exists>t'. map_of (tasks q'') k = Some t' \<and> priority t' = priority t \<and>
                dependencies t' = dependencies t" by simp
next
  from assms show "set (completed q) \<subseteq> set (completed q'')"
    unfolding keeps_tasks_def by blast
qed

lemma keeps_tasks_on_task:
  "(\<And>t. priority (f t) = priority t \<and> dependencies (f t) = dependencies t)
     \<Longrightarrow> keeps_tasks q (on_task tid f q)"
  by (auto simp: keeps_tasks_def map_of_on_task)

lemma keeps_tasks_same:
  "tasks q' = tasks q \<Longrightarrow> set (completed q) \<subseteq> set (completed q') \<Longrightarrow> keeps_tasks q q'"
  by (simp add: keeps_tasks_def)

lemma ready_entry_keeps:
  assumes "ready_entry q e" "keeps_tasks q q'"
  shows "ready_entry q' e"
proof -
  from assms(1) obtain t where t: "map_of (tasks q) (snd e) = Some t" "priority t = fst e"
      "\<forall>d \<in> set (dependencies t). d \<in> set (completed q)"
    unfolding ready_entry_def by blast
  from assms(2) t(1) obtain t' where t': "map_of (tasks q') (snd e) = Some t'"
      "priority t' = priority t" "dependencies t' = dependencies t"
    unfolding keeps_tasks_def by blast
  from assms(2) have "set (completed q) \<subseteq> set (completed q')"
    unfolding keeps_tasks_def by blast
  with t t' show ?thesis unfolding ready_entry_def by auto
qed

lemma task_method_fields [simp]:
  "priority (start now t) = priority t" "dependencies (start now t) = dependencies t"
  "priority (complete res now t) = priority t" "dependencies (complete res now t) = dependencies t"
  "priority (fail err now t) = priority t" "dependencies (fail err now t) = dependencies t"
  "priority (cancel now t) = priority t" "dependencies (cancel now t) = dependencies t"
  by (simp_all add: start_def complete_def fail_def cancel_def)

lemma queue_inv_empty: "queue_inv empty_queue"
  by (simp add: queue_inv_def empty_queue_def)

lemma queue_inv_clear: "queue_inv (clear_queue q)"
  by (simp add: queue_inv_def clear_queue_def)

lemma queue_inv_keeps:
  assumes "queue_inv q" "keeps_tasks q q'" "set (queue q') \<subseteq> set (queue q)"
    "set (pending q') \<subseteq> set (pending q)" "fst ` set (tasks q') = fst ` set (tasks q)"
  shows "queue_inv q'"
  using assms unfolding queue_inv_def by (blast intro: ready_entry_keeps)

lemma queue_inv_get:
  assumes "queue_inv q"
  shows "queue_inv (snd (get_next_task timeout now q))"
proof (cases "priority_queue_get task_lt timeout (queue q)")
  case (Returns r)
  obtain prio tid rest where r: "r = ((prio, tid), rest)" by (metis prod.exhaust)
  let ?q1 = "q\<lparr>queue := rest, pending := set_discard tid (pending q),
                in_progress := set_add tid (in_progress q)\<rparr>"
  have q': "snd (get_next_task timeout now q) = on_task tid (start now) ?q1"
    by (simp add: get_next_task_def Returns r)
  from priority_queue_get_cases [OF Returns [unfolded r]]
  have "mset (queue q) = add_mset (prio, tid) (mset rest)" by simp
  then have sub: "set rest \<subseteq> set (queue q)"
    by (metis set_mset_add_mset_insert set_mset_mset subset_insertI)
  have k: "keeps_tasks q (on_task tid (start now) ?q1)"
    using keeps_tasks_on_task [of "start now" ?q1 tid]
    by (simp add: keeps_tasks_def map_of_on_task)
  show ?thesis unfolding q'
    using assms k by (rule queue_inv_keeps) (use sub in \<open>auto simp: set_discard_def\<close>)
next
  case (Raises e)
  with assms show ?thesis by (cases e) (simp_all add: get_next_task_def)
next
  case Blocks
  with assms show ?thesis by (simp add: get_next_task_def)
qed

lemma queue_inv_fail: "queue_inv q \<Longrightarrow> queue_inv (fail_task tid err now q)"
proof -
  assume i: "queue_inv q"
  have k: "keeps_tasks q (on_task tid (fail err now) q)"
    by (rule keeps_tasks_on_task) simp
  show ?thesis
  proof (cases "tid \<in> fst ` set (tasks q)")
    case True
    let ?q' = "fail_task tid err now q"
    have "keeps_tasks q ?q'"
      using k True by (simp add: fail_task_def Let_def keeps_tasks_def)
    with i show ?thesis
      by (rule queue_inv_keeps) (use True in \<open>simp_all add: fail_task_def Let_def\<close>)
  next
    case False
    with i show ?thesis by (simp add: fail_task_def)
  qed
qed

lemma queue_inv_cancel: "queue_inv q \<Longrightarrow> queue_inv (cancel_task tid now q)"
proof -
  assume i: "queue_inv q"
  have k: "keeps_tasks q (on_task tid (cancel now) q)"
    by (rule keeps_tasks_on_task) simp
  show ?thesis
  proof (cases "tid \<in> fst ` set (tasks q)")
    case True
    let ?q' = "cancel_task tid now q"
    have "keeps_tasks q ?q'"
      using k True by (simp add: cancel_task_def Let_def keeps_tasks_def)
    with i show ?thesis
      by (rule queue_inv_keeps)
         (use True in \<open>auto simp: cancel_task_def Let_def set_discard_def\<close>)
  next
    case False
    with i show ?thesis by (simp add: cancel_task_def)
  qed
qed

lemma queue_inv_add:
  assumes i: "queue_inv q" and fresh: "tid \<notin> fst ` set (tasks q)"
  shows "queue_inv (snd (add_task tid atype act inp prio deps md now q))"
proof -
  let ?t = "new_task tid atype act inp prio deps md now"
  let ?q1 = "q\<lparr>tasks := AList.update tid ?t (tasks q), pending := set_add tid (pending q),
                total_tasks := total_tasks q + 1\<rparr>"
  have none: "map_of (tasks q) tid = None"
    using fresh by (simp add: map_of_eq_None_iff)
  have k: "keeps_tasks q ?q1"
    unfolding keeps_tasks_def using none by (auto simp: update_conv')
  have keys: "fst ` set (tasks ?q1) = insert tid (fst ` set (tasks q))"
    using dom_update [of tid ?t "tasks q"] by (simp add: dom_map_of_conv_image_fst)
  have i1: "queue_inv ?q1"
    unfolding queue_inv_def
  proof (intro conjI ballI)
    fix e assume "e \<in> set (queue ?q1)"
    with i have "ready_entry q e" by (simp add: queue_inv_def)
    then show "ready_entry ?q1 e" using k by (rule ready_entry_keeps)
  next
    from i show "set (pending ?q1) \<subseteq> fst ` set (tasks ?q1)"
      unfolding keys by (auto simp: queue_inv_def set_add_def)
  qed
  show ?thesis
  proof (cases "can_execute ?q1 ?t")
    case True
    have r: "ready_entry ?q1 (priority ?t, tid)"
      using True by (simp add: ready_entry_def can_execute_iff update_conv')
    have "queue_inv (?q1\<lparr>queue := heappush task_lt (queue ?q1) (priority ?t, tid)\<rparr>)"
      using i1 r by (auto simp: queue_inv_def set_heappush ready_entry_def)
    with True show ?thesis by (simp add: add_task_def Let_def)
  next
    case False
    with i1 show ?thesis by (simp add: add_task_def Let_def)
  qed
qed

lemma check_dependent_tasks_inv:
  "set ps \<subseteq> fst ` set (tasks q) \<Longrightarrow> queue_inv q \<Longrightarrow>
     \<exists>q'. check_dependent_tasks c ps q = Returns q' \<and> queue_inv q' \<and> tasks q' = tasks q
        \<and> completed q' = completed q \<and> pending q' = pending q
        \<and> set (queue q) \<subseteq> set (queue q')
        \<and> (\<forall>tid \<in> set ps. \<forall>t. map_of (tasks q) tid = Some t \<longrightarrow> c \<in> set (dependencies t)
              \<longrightarrow> can_execute q t \<longrightarrow> (priority t, tid) \<in> set (queue q'))"
proof (induction ps arbitrary: q)
  case Nil
  then show ?case by simp
next
  case (Cons p ps)
  from Cons.prems(1) have "p \<in> fst ` set (tasks q)" by simp
  then obtain t where t: "map_of (tasks q) p = Some t"
    by (metis map_of_eq_None_iff not_Some_eq)
  let ?push = "c \<in> set (dependencies t) \<and> can_execute q t"
  let ?q1 = "if ?push then q\<lparr>queue := heappush task_lt (queue q) (priority t, p)\<rparr> else q"
  have same: "tasks ?q1 = tasks q" "completed ?q1 = completed q" "pending ?q1 = pending q"
    by simp_all
  have ce: "can_execute ?q1 = can_execute q"
    by (intro ext) (simp add: can_execute_iff)
  have sub: "set (queue q) \<subseteq> set (queue ?q1)"
    by (auto simp: set_heappush)
  have i1: "queue_inv ?q1"
  proof (cases ?push)
    case True
    then have "ready_entry q (priority t, p)"
      using t by (simp add: ready_entry_def can_execute_iff)
    with Cons.prems(2) True show ?thesis
      by (auto simp: queue_inv_def set_heappush ready_entry_def)
  next
    case False
    with Cons.prems(2) show ?thesis by auto
  qed
  have "set ps \<subseteq> fst ` set (tasks ?q1)" using Cons.prems(1) by simp
  from Cons.IH [OF this i1, unfolded same ce] obtain q' where
    q': "check_dependent_tasks c ps ?q1 = Returns q'" "queue_inv q'" "tasks q' = tasks q"
      "completed q' = completed q" "pending q' = pending q" "set (queue ?q1) \<subseteq> set (queue q')"
      "\<forall>tid \<in> set ps. \<forall>t. map_of (tasks q) tid = Some t \<longrightarrow> c \<in> set (dependencies t)
              \<longrightarrow> can_execute q t \<longrightarrow> (priority t, tid) \<in> set (queue q')"
    by blast
  have r: "check_dependent_tasks c (p # ps) q = Returns q'"
    using t q'(1) by simp
  have hd: "c \<in> set (dependencies t) \<longrightarrow> can_execute q t \<longrightarrow> (priority t, p) \<in> set (queue q')"
    using q'(6) by (auto simp: set_heappush)
  show ?case
    using r q'(2-5) q'(7) sub q'(6) hd t by auto
qed

lemma complete_task_inv:
  assumes i: "queue_inv q"
  shows "\<exists>q'. complete_task tid res now q = Returns q' \<and> queue_inv q' \<and> keeps_tasks q q'
      \<and> set (queue q) \<subseteq> set (queue q') \<and> pending q' = pending q
      \<and> fst ` set (tasks q') = fst ` set (tasks q)
      \<and> (tid \<in> fst ` set (tasks q) \<longrightarrow>
           (\<forall>p \<in> set (pending q). \<forall>t. map_of (tasks q) p = Some t \<longrightarrow> tid \<in> set (dependencies t)
              \<longrightarrow> (\<forall>d \<in> set (dependencies t). d = tid \<or> d \<in> set (completed q))
              \<longrightarrow> (priority t, p) \<in> set (queue q')))"
proof (cases "tid \<in> fst ` set (tasks q)")
  case False
  with i show ?thesis by (simp add: complete_task_def keeps_tasks_refl)
next
  case True
  let ?q1 = "on_task tid (complete res now) q"
  let ?q2 = "?q1\<lparr>in_progress := set_discard tid (in_progress ?q1),
                 completed := set_add tid (completed ?q1),
                 completed_tasks := completed_tasks ?q1 + 1\<rparr>"
  have c2: "set (completed ?q2) = insert tid (set (completed q))"
    by (auto simp: set_add_def)
  have k1: "keeps_tasks q ?q1" by (rule keeps_tasks_on_task) simp
  have k2: "keeps_tasks q ?q2"
    using k1 unfolding keeps_tasks_def by (auto simp: set_add_def)
  have i2: "queue_inv ?q2"
    using i k2 by (rule queue_inv_keeps) simp_all
  have ps: "set (pending ?q2) \<subseteq> fst ` set (tasks ?q2)"
    using i by (simp add: queue_inv_def)
  from check_dependent_tasks_inv [OF ps i2, of tid] obtain q' where
    q': "check_dependent_tasks tid (pending ?q2) ?q2 = Returns q'" "queue_inv q'"
      "tasks q' = tasks ?q2" "completed q' = completed ?q2" "pending q' = pending ?q2"
      "set (queue ?q2) \<subseteq> set (queue q')"
      "\<forall>p \<in> set (pending ?q2). \<forall>t. map_of (tasks ?q2) p = Some t \<longrightarrow> tid \<in> set (dependencies t)
              \<longrightarrow> can_execute ?q2 t \<longrightarrow> (priority t, p) \<in> set (queue q')"
    by blast
  have r: "complete_task tid res now q = Returns q'"
    using True q'(1) by (simp add: complete_task_def Let_def)
  have k: "keeps_tasks q q'"
    using k2 q'(3,4) unfolding keeps_tasks_def by simp
  have push: "(priority t, p) \<in> set (queue q')"
    if p: "p \<in> set (pending q)" and t: "map_of (tasks q) p = Some t"
      and d: "tid \<in> set (dependencies t)"
      and all: "\<forall>d \<in> set (dependencies t). d = tid \<or> d \<in> set (completed q)" for p t
  proof -
    from k2 t obtain t2 where t2: "map_of (tasks ?q2) p = Some t2" "priority t2 = priority t"
        "dependencies t2 = dependencies t"
      unfolding keeps_tasks_def by blast
    have ce: "can_execute ?q2 t2"
      unfolding can_execute_iff c2 t2(3) using all by blast
    have pp: "p \<in> set (pending ?q2)" using p by simp
    have dd: "tid \<in> set (dependencies t2)" using d t2(3) by simp
    from q'(7) pp t2(1) dd ce have "(priority t2, p) \<in> set (queue q')" by blast
    then show ?thesis by (simp add: t2(2))
  qed
  show ?thesis
    using r q'(2) k q'(6) q'(5) q'(3) push by simp
qed

lemma reachable_queue_inv: "reachable_queue q \<Longrightarrow> queue_inv q"
proof (induction rule: reachable_queue.induct)
  case init
  show ?case by (rule queue_inv_empty)
next
  case (add q tid atype act inp prio deps md now)
  then show ?case by (simp add: queue_inv_add)
next
  case (get q timeout now)
  then show ?case by (simp add: queue_inv_get)
next
  case (complete q tid res now q')
  with complete_task_inv [of q tid res now] show ?case by simp
next
  case (fail q tid err now)
  then show ?case by (simp add: queue_inv_fail)
next
  case (cancel q tid now)
  then show ?case by (simp add: queue_inv_cancel)
next
  case (clear q)
  show ?case by (rule queue_inv_clear)
qed

lemma get_next_task_returned:
  assumes "get_next_task timeout now q = (Returns (Some tid), q')"
  shows "\<exists>prio rest. heappop task_lt (queue q) = Inr ((prio, tid), rest)
           \<and> mset (queue q) = add_mset (prio, tid) (mset rest) \<and> queue q' = rest"
proof (cases "priority_queue_get task_lt timeout (queue q)")
  case (Returns r)
  obtain prio x rest where r: "r = ((prio, x), rest)" by (metis prod.exhaust)
  from assms have "x = tid" "queue q' = rest"
    by (auto simp: get_next_task_def Returns r)
  with priority_queue_get_cases [OF Returns [unfolded r]] show ?thesis by auto
next
  case (Raises e)
  with assms show ?thesis by (cases e) (simp_all add: get_next_task_def)
next
  case Blocks
  with assms show ?thesis by (simp add: get_next_task_def)
qed

lemma get_next_task_nonempty:
  assumes "valid_timeout timeout" "queue q \<noteq> []"
  shows "\<exists>prio tid rest q'. heappop task_lt (queue q) = Inr ((prio, tid), rest)
           \<and> get_next_task timeout now q = (Returns (Some tid), q') \<and> queue q' = rest"
proof -
  from priority_queue_get_valid [OF assms, of task_lt] obtain x rest where
    g: "priority_queue_get task_lt timeout (queue q) = Returns (x, rest)"
    and p: "heappop task_lt (queue q) = Inr (x, rest)" by blast
  obtain prio tid where x: "x = (prio, tid)" by (cases x)
  show ?thesis using g p by (simp add: get_next_task_def x)
qed

lemma heappop_length:
  "heappop lt heap = Inr (x, rest) \<Longrightarrow> length heap = Suc (length rest)"
proof -
  assume p: "heappop lt heap = Inr (x, rest)"
  then have "heap \<noteq> []" by (auto simp: heappop_def split: if_splits)
  from mset_heappop [OF this, of lt] p have "mset heap = add_mset x (mset rest)" by simp
  then have "size (mset heap) = size (add_mset x (mset rest))" by simp
  then show ?thesis by simp
qed

lemma next_tasks_pop_order:
  "valid_timeout timeout \<Longrightarrow> n \<le> length (queue q)
     \<Longrightarrow> next_tasks n timeout now q = pop_order n (queue q)"
proof (induction n arbitrary: q)
  case 0
  show ?case by simp
next
  case (Suc n)
  then have ne: "queue q \<noteq> []" by auto
  from get_next_task_nonempty [OF Suc.prems(1) ne, of now] obtain prio tid rest q' where
    p: "heappop task_lt (queue q) = Inr ((prio, tid), rest)"
    and g: "get_next_task timeout now q = (Returns (Some tid), q')" and r: "queue q' = rest"
    by blast
  from heappop_length [OF p] Suc.prems(2) r have "n \<le> length (queue q')" by simp
  from Suc.IH [OF Suc.prems(1) this] show ?case by (simp add: g p r)
qed

lemma mset_pop_order:
  "n = length heap \<Longrightarrow> mset (pop_order n heap) = mset (map snd heap)"
proof (induction n arbitrary: heap)
  case 0
  then show ?case by simp
next
  case (Suc n)
  then have ne: "heap \<noteq> []" by auto
  from mset_heappop [OF ne, of task_lt] obtain x rest where
    p: "heappop task_lt heap = Inr (x, rest)" and m: "mset heap = add_mset x (mset rest)" by blast
  obtain prio tid where x: "x = (prio, tid)" by (cases x)
  from heappop_length [OF p] Suc.prems have "n = length rest" by simp
  from Suc.IH [OF this] have "mset (pop_order n rest) = mset (map snd rest)" .
  moreover have "mset (map snd heap) = add_mset tid (mset (map snd rest))"
    using m x by (metis fst_conv image_mset_add_mset mset_map snd_conv)
  ultimately show ?case by (simp add: p x)
qed

lemma heappush_equal_1: "heappush task_lt [] (p, a) = [(p, a)]"
  by (simp add: heappush_def siftdown_def siftdown_loop.simps)

lemma heappush_equal_2: "heappush task_lt [(p, a)] (p, b) = [(p, a), (p, b)]"
  by (simp add: heappush_def siftdown_def siftdown_loop.simps task_lt_def Let_def)

lemma heappush_equal_3: "heappush task_lt [(p, a), (p, b)] (p, c) = [(p, a), (p, b), (p, c)]"
  by (simp add: heappush_def siftdown_def siftdown_loop.simps task_lt_def Let_def)

lemma heappop_equal_1: "heappop task_lt [(p, a)] = Inr ((p, a), [])"
  by (simp add: heappop_def)

lemma heappop_equal_2: "heappop task_lt [(p, a), (p, b)] = Inr ((p, a), [(p, b)])"
  by (simp add: heappop_def siftup_def siftup_loop.simps siftdown_def siftdown_loop.simps
        task_lt_def Let_def)

lemma heappop_equal_3:
  "heappop task_lt [(p, a), (p, b), (p, c)] = Inr ((p, a), [(p, b), (p, c)])"
  by (simp add: heappop_def siftup_def siftup_loop.simps siftdown_def siftdown_loop.simps
        task_lt_def Let_def)

lemma queue_add_task_no_deps:
  "queue (snd (add_task tid atype act inp prio [] md now q)) = heappush task_lt (queue q) (prio, tid)"
  by (simp add: add_task_def Let_def can_execute_def new_task_def)

lemma queue_add_tasks:
  "\<forall>r \<in> set reqs. req_dependencies r = [] \<Longrightarrow>
     queue (add_tasks reqs now q) =
       fold (\<lambda>r h. heappush task_lt h (req_priority r, req_id r)) reqs (queue q)"
  by (induction reqs arbitrary: q) (simp_all add: queue_add_task_no_deps)

lemma mset_fold_heappush:
  "mset (fold (\<lambda>r h. heappush lt h (f r)) reqs heap) = mset (map f reqs) + mset heap"
  by (induction reqs arbitrary: heap) (simp_all add: mset_heappush)

lemma short_list_cases:
  "length xs \<le> 3 \<Longrightarrow>
     xs = [] \<or> (\<exists>a. xs = [a]) \<or> (\<exists>a b. xs = [a, b]) \<or> (\<exists>a b c. xs = [a, b, c])"
  by (auto simp: numeral_3_eq_3 le_Suc_eq length_Suc_conv)

text \<open>
  Claim C2, as the code has it. Tasks of one priority without dependencies, added to a new
  queue, are each returned exactly once by as many calls of \<open>get_next_task\<close>; for up
  to three tasks the calls return them in the order of insertion. The priority queue
  compares priorities only and has no insertion counter, so longer sequences come out in
  the order in which the binary heap happens to hold them.
\<close>

theorem equal_priority_order:
  assumes eq: "\<forall>r \<in> set reqs. req_priority r = p \<and> req_dependencies r = []"
      and to: "valid_timeout timeout"
  shows "mset (next_tasks (length reqs) timeout now' (add_tasks reqs now empty_queue))
           = mset (map req_id reqs)
       \<and> (length reqs \<le> 3 \<longrightarrow>
            next_tasks (length reqs) timeout now' (add_tasks reqs now empty_queue)
              = map req_id reqs)"
proof -
  let ?f = "\<lambda>r. (req_priority r, req_id r)"
  let ?h = "fold (\<lambda>r h. heappush task_lt h (?f r)) reqs []"
  have q: "queue (add_tasks reqs now empty_queue) = ?h"
    using eq by (simp add: queue_add_tasks empty_queue_def)
  have m: "mset ?h = mset (map ?f reqs)"
    by (simp add: mset_fold_heappush)
  then have "size (mset ?h) = size (mset (map ?f reqs))" by simp
  then have len: "length ?h = length reqs" by simp
  have nt: "next_tasks (length reqs) timeout now' (add_tasks reqs now empty_queue)
              = pop_order (length reqs) ?h"
    using next_tasks_pop_order [OF to, of "length reqs" "add_tasks reqs now empty_queue" now']
    by (simp add: q len)
  have "mset (pop_order (length reqs) ?h) = mset (map snd ?h)"
    by (rule mset_pop_order) (simp add: len)
  also have "\<dots> = image_mset snd (mset ?h)" by simp
  also have "\<dots> = mset (map req_id reqs)"
    unfolding m by (simp add: multiset.map_comp comp_def)
  finally have a: "mset (next_tasks (length reqs) timeout now' (add_tasks reqs now empty_queue))
           = mset (map req_id reqs)"
    by (simp add: nt)
  have b: "pop_order (length reqs) ?h = map req_id reqs" if "length reqs \<le> 3"
  proof -
    from short_list_cases [OF that]
    consider "reqs = []" | r1 where "reqs = [r1]" | r1 r2 where "reqs = [r1, r2]"
      | r1 r2 r3 where "reqs = [r1, r2, r3]"
      by blast
    then show ?thesis
    proof cases
      case 1
      then show ?thesis by simp
    next
      case 2
      with eq show ?thesis
        by (simp add: heappush_equal_1 heappop_equal_1)
    next
      case 3
      with eq show ?thesis
        by (simp add: heappush_equal_1 heappush_equal_2 heappop_equal_1 heappop_equal_2
              numeral_2_eq_2)
    next
      case 4
      with eq show ?thesis
        by (simp add: heappush_equal_1 heappush_equal_2 heappush_equal_3
              heappop_equal_1 heappop_equal_2 heappop_equal_3 numeral_3_eq_3)
    qed
  qed
  from a b nt show ?thesis by simp
qed

theorem equal_priority_order_witness:
  "list_all (\<lambda>r. req_priority r = 2 \<and> req_dependencies r = [])
      (map (plain_request 2) [''a'', ''b'', ''c''])
   \<and> valid_timeout (Some 1)
   \<and> length (map (plain_request 2) [''a'', ''b'', ''c'']) \<le> 3
   \<and> next_tasks 3 (Some 1) 0 (add_tasks (map (plain_request 2) [''a'', ''b'', ''c'']) 0 empty_queue)
       = [''a'', ''b'', ''c'']"
proof -
  let ?reqs = "map (plain_request 2) [''a'', ''b'', ''c'']"
  have h1: "\<forall>r \<in> set ?reqs. req_priority r = 2 \<and> req_dependencies r = []"
    by (simp add: plain_request_def)
  have h2: "valid_timeout (Some 1)" by (simp add: valid_timeout_def)
  have l: "length ?reqs = 3" by simp
  have i: "map req_id ?reqs = [''a'', ''b'', ''c'']" by (simp add: plain_request_def)
  from equal_priority_order [OF h1 h2, of 0 0, unfolded l i]
  have "next_tasks 3 (Some 1) 0 (add_tasks ?reqs 0 empty_queue) = [''a'', ''b'', ''c'']" by simp
  moreover have "list_all (\<lambda>r. req_priority r = 2 \<and> req_dependencies r = []) ?reqs"
    using h1 by (simp add: list_all_iff)
  ultimately show ?thesis using h2 by simp
qed

text \<open>
  Claim C2 as it is written fails for four tasks of equal priority: \<open>a\<close>, \<open>b\<close>,
  \<open>c\<close>, \<open>d\<close> are returned as \<open>a\<close>, \<open>c\<close>, \<open>b\<close>, \<open>d\<close>.
\<close>

theorem equal_priority_order_counterexample:
  "next_tasks 4 (Some 1) 0
     (add_tasks (map (plain_request 2) [''a'', ''b'', ''c'', ''d'']) 0 empty_queue)
   = [''a'', ''c'', ''b'', ''d'']"
  by code_simp

text \<open>
  Claim C6, as amended. In every state that the operations reach, a task that
  \<open>get_next_task\<close> returns has all its dependencies in \<open>completed\<close>: a task with a
  dependency that has not been completed is never returned. When a task that is still
  pending has only one dependency left outside \<open>completed\<close> and that dependency is a
  task of the queue, \<open>complete_task\<close> on it returns normally and puts the task on the
  priority queue, from where repeated calls of \<open>get_next_task\<close> (with no timeout or
  one that is not negative) return it.
\<close>

theorem dependency_gating:
  assumes r: "reachable_queue q"
  shows "(\<forall>tid t q'. get_next_task timeout now q = (Returns (Some tid), q')
            \<and> map_of (tasks q) tid = Some t
            \<longrightarrow> (\<forall>d \<in> set (dependencies t). d \<in> set (completed q)))
       \<and> (\<forall>tid t dep. tid \<in> set (pending q) \<and> map_of (tasks q) tid = Some t
            \<and> dep \<in> set (dependencies t) \<and> dep \<in> fst ` set (tasks q)
            \<and> (\<forall>d \<in> set (dependencies t). d \<noteq> dep \<longrightarrow> d \<in> set (completed q))
            \<longrightarrow> (\<exists>q'. complete_task dep res now q = Returns q'
                  \<and> (priority t, tid) \<in> set (queue q')
                  \<and> (\<forall>timeout'. valid_timeout timeout' \<longrightarrow>
                        tid \<in> set (next_tasks (length (queue q')) timeout' now q'))))"
proof (intro conjI allI impI)
  fix tid t q'
  assume a: "get_next_task timeout now q = (Returns (Some tid), q') \<and> map_of (tasks q) tid = Some t"
  from get_next_task_returned [of timeout now q tid q'] a obtain prio rest where
    "mset (queue q) = add_mset (prio, tid) (mset rest)" by blast
  then have "(prio, tid) \<in> set (queue q)"
    by (metis set_mset_mset union_single_eq_member)
  with reachable_queue_inv [OF r] have "ready_entry q (prio, tid)"
    by (simp add: queue_inv_def)
  with a show "\<forall>d \<in> set (dependencies t). d \<in> set (completed q)"
    by (auto simp: ready_entry_def)
next
  fix tid t dep
  assume a: "tid \<in> set (pending q) \<and> map_of (tasks q) tid = Some t
            \<and> dep \<in> set (dependencies t) \<and> dep \<in> fst ` set (tasks q)
            \<and> (\<forall>d \<in> set (dependencies t). d \<noteq> dep \<longrightarrow> d \<in> set (completed q))"
  from complete_task_inv [OF reachable_queue_inv [OF r], of dep res now] obtain q' where
    c: "complete_task dep res now q = Returns q'"
    and p: "dep \<in> fst ` set (tasks q) \<longrightarrow>
           (\<forall>p \<in> set (pending q). \<forall>t. map_of (tasks q) p = Some t \<longrightarrow> dep \<in> set (dependencies t)
              \<longrightarrow> (\<forall>d \<in> set (dependencies t). d = dep \<or> d \<in> set (completed q))
              \<longrightarrow> (priority t, p) \<in> set (queue q'))"
    by blast
  from a have "\<forall>d \<in> set (dependencies t). d = dep \<or> d \<in> set (completed q)" by blast
  with p a have e: "(priority t, tid) \<in> set (queue q')" by blast
  have n: "tid \<in> set (next_tasks (length (queue q')) timeout' now q')"
    if v: "valid_timeout timeout'" for timeout'
  proof -
    have "mset (next_tasks (length (queue q')) timeout' now q') = mset (map snd (queue q'))"
      using next_tasks_pop_order [OF v, of "length (queue q')" q' now]
        mset_pop_order [of "length (queue q')" "queue q'"] by simp
    then have "set (next_tasks (length (queue q')) timeout' now q') = snd ` set (queue q')"
      by (metis set_map set_mset_mset)
    with e show ?thesis by force
  qed
  from c e n show "\<exists>q'. complete_task dep res now q = Returns q'
                  \<and> (priority t, tid) \<in> set (queue q')
                  \<and> (\<forall>timeout'. valid_timeout timeout' \<longrightarrow>
                        tid \<in> set (next_tasks (length (queue q')) timeout' now q'))"
    by blast
qed

theorem dependency_gating_witness:
  "reachable_queue gated_queue
   \<and> ''t'' \<in> set (pending gated_queue)
   \<and> map_of (tasks gated_queue) ''t'' = Some (new_task ''t'' ''writer'' ''write'' PyNone 1 [''d''] [] 1)
   \<and> ''d'' \<notin> set (completed gated_queue)
   \<and> next_tasks 2 (Some 1) 2 gated_queue = [''d'']
   \<and> (\<exists>q'. complete_task ''d'' PyNone 2 gated_queue = Returns q'
          \<and> (1, ''t'') \<in> set (queue q')
          \<and> ''t'' \<in> set (next_tasks (length (queue q')) (Some 1) 2 q'))"
proof -
  let ?q1 = "snd (add_task ''d'' ''researcher'' ''research'' PyNone 2 [] [] 0 empty_queue)"
  let ?t = "new_task ''t'' ''writer'' ''write'' PyNone 1 [''d''] [] 1"
  have r1: "reachable_queue ?q1"
    by (rule reachable_queue.add [OF reachable_queue.init]) (simp add: empty_queue_def)
  have r: "reachable_queue gated_queue"
    unfolding gated_queue_def
    by (rule reachable_queue.add [OF r1])
       (simp add: add_task_def empty_queue_def Let_def can_execute_def new_task_def)
  have p: "''t'' \<in> set (pending gated_queue)"
    by (simp add: gated_queue_def add_task_def empty_queue_def Let_def can_execute_def
          new_task_def set_add_def)
  have t: "map_of (tasks gated_queue) ''t'' = Some ?t"
    by (simp add: gated_queue_def add_task_def empty_queue_def Let_def can_execute_def)
  have d: "''d'' \<in> set (dependencies ?t)" "priority ?t = 1"
    by (simp_all add: new_task_def)
  have k: "''d'' \<in> fst ` set (tasks gated_queue)"
    by (simp add: gated_queue_def add_task_def empty_queue_def Let_def can_execute_def)
  have o: "\<forall>x \<in> set (dependencies ?t). x \<noteq> ''d'' \<longrightarrow> x \<in> set (completed gated_queue)"
    by (simp add: new_task_def)
  have c: "''d'' \<notin> set (completed gated_queue)"
    by (simp add: gated_queue_def add_task_def empty_queue_def Let_def can_execute_def)
  have n: "next_tasks 2 (Some 1) 2 gated_queue = [''d'']"
    by code_simp
  have v: "valid_timeout (Some 1)" by (simp add: valid_timeout_def)
  from dependency_gating [OF r, of "Some 1" 2 PyNone, THEN conjunct2, rule_format,
      of "''t''" ?t "''d''"] p t d(1) k o
  obtain q' where "complete_task ''d'' PyNone 2 gated_queue = Returns q'"
    "(priority ?t, ''t'') \<in> set (queue q')"
    "\<forall>timeout'. valid_timeout timeout' \<longrightarrow> ''t'' \<in> set (next_tasks (length (queue q')) timeout' 2 q')"
    by blast
  with v d(2) have "\<exists>q'. complete_task ''d'' PyNone 2 gated_queue = Returns q'
          \<and> (1, ''t'') \<in> set (queue q')
          \<and> ''t'' \<in> set (next_tasks (length (queue q')) (Some 1) 2 q')"
    by auto
  with r p t c n show ?thesis by blast
qed

text \<open>
  Claim C6 as it is written fails in two ways. \<open>add_task\<close> takes a dependency that names
  no task; \<open>complete_task\<close> on such an identifier returns at once and changes nothing,
  so the task that waits for it is never handed out. And a task that has been cancelled
  has left \<open>pending\<close>: when its dependency is completed it is not put on the priority
  queue.
\<close>

theorem dependency_gating_counterexample:
  "map_of (tasks orphan_queue) ''t''
     = Some (new_task ''t'' ''writer'' ''write'' PyNone 1 [''ghost''] [] 0)
   \<and> pending orphan_queue = [''t'']
   \<and> completed orphan_queue = []
   \<and> complete_task ''ghost'' PyNone 1 orphan_queue = Returns orphan_queue
   \<and> queue orphan_queue = []
   \<and> fst (get_next_task (Some 1) 2 orphan_queue) = Returns None
   \<and> map_option dependencies (map_of (tasks cancelled_queue) ''t'') = Some [''d'']
   \<and> in_progress cancelled_queue = [''d'']
   \<and> completed cancelled_queue = []
   \<and> complete_task ''d'' PyNone 4 cancelled_queue
       = Returns ((on_task ''d'' (complete PyNone 4) cancelled_queue)
                    \<lparr>in_progress := [], completed := [''d''], completed_tasks := 1\<rparr>)
   \<and> queue ((on_task ''d'' (complete PyNone 4) cancelled_queue)
                \<lparr>in_progress := [], completed := [''d''], completed_tasks := 1\<rparr>) = []
   \<and> fst (get_next_task (Some 1) 5
            ((on_task ''d'' (complete PyNone 4) cancelled_queue)
               \<lparr>in_progress := [], completed := [''d''], completed_tasks := 1\<rparr>))
       = Returns None"
  by code_simp

section \<open>Properties of the dependency graph\<close>

lemma cycle_search_False:
  "cycle_search gr t visited dq = False \<Longrightarrow> t \<notin> set visited
     \<Longrightarrow> (\<forall>v \<in> set visited. set (successors gr v) \<subseteq> set visited \<union> set dq)
     \<Longrightarrow> \<forall>x \<in> set visited \<union> set dq. (x, t) \<notin> {(a, b). b \<in> set (successors gr a)}\<^sup>*"
proof (induction gr t visited dq rule: cycle_search.induct)
  case (1 gr t visited)
  let ?E = "{(a, b). b \<in> set (successors gr a)}"
  have closed: "y \<in> set visited" if "(x, y) \<in> ?E\<^sup>*" "x \<in> set visited" for x y
    using that
  proof (induction rule: rtrancl_induct)
    case base
    then show ?case .
  next
    case (step y z)
    with "1.prems"(3) show ?case by auto
  qed
  with "1.prems"(2) show ?case by auto
next
  case (2 gr t visited current dq)
  from "2.prems"(1) have ne: "current \<noteq> t" by (auto split: if_splits)
  show ?case
  proof (cases "current \<in> set visited")
    case True
    with "2.prems"(1) ne have f: "cycle_search gr t visited dq = False" by simp
    have c: "\<forall>v \<in> set visited. set (successors gr v) \<subseteq> set visited \<union> set dq"
      using "2.prems"(3) True by auto
    from "2.IH"(1) [OF ne True f "2.prems"(2) c] True show ?thesis by auto
  next
    case False
    let ?v = "set_add current visited" and ?q = "dq @ successors gr current"
    from "2.prems"(1) ne False have f: "cycle_search gr t ?v ?q = False" by simp
    have sv: "set ?v = insert current (set visited)"
      by (auto simp: set_add_def)
    have tv: "t \<notin> set ?v" using "2.prems"(2) ne by (simp add: sv)
    have c: "\<forall>v \<in> set ?v. set (successors gr v) \<subseteq> set ?v \<union> set ?q"
      using "2.prems"(3) unfolding sv by auto
    from "2.IH"(2) [OF ne False f tv c] show ?thesis unfolding sv by auto
  qed
qed

lemma would_create_cycle_False:
  "\<not> would_create_cycle g node dep \<Longrightarrow> (dep, node) \<notin> (depends_on g)\<^sup>*"
  using cycle_search_False [of "graph g" node "[]" "[dep]"]
  by (simp add: would_create_cycle_def depends_on_def)

lemma successors_update:
  "successors (AList.update k s d) k' = (if k' = k then s else successors d k')"
  by (simp add: successors_def update_conv')

lemma successors_add_empty:
  "k \<notin> fst ` set d \<Longrightarrow> successors (AList.update k [] d) k' = successors d k'"
proof -
  assume "k \<notin> fst ` set d"
  then have "map_of d k = None" by (simp add: map_of_eq_None_iff)
  then show ?thesis by (simp add: successors_def update_conv')
qed

lemma keys_update: "fst ` set (AList.update k v d) = insert k (fst ` set d)"
  using dom_update [of k v d] by (simp add: dom_map_of_conv_image_fst)

lemma add_node_fields [simp]:
  "successors (graph (add_node n g)) k = successors (graph g) k"
  "successors (reverse_graph (add_node n g)) k = successors (reverse_graph g) k"
  "set (nodes (add_node n g)) = insert n (set (nodes g))"
  "fst ` set (graph (add_node n g)) = insert n (fst ` set (graph g))"
  "fst ` set (reverse_graph (add_node n g)) = insert n (fst ` set (reverse_graph g))"
  by (auto simp: add_node_def successors_add_empty keys_update set_add_def)

lemma depends_on_add_node [simp]: "depends_on (add_node n g) = depends_on g"
  by (simp add: depends_on_def)

lemma distinct_set_add: "distinct s \<Longrightarrow> distinct (set_add x s)"
  by (simp add: set_add_def)

lemma graph_inv_empty: "graph_inv empty_graph"
  by (simp add: graph_inv_def empty_graph_def successors_def depends_on_def acyclic_def)

lemma graph_inv_clear: "graph_inv (clear_graph g)"
  by (simp add: graph_inv_def clear_graph_def successors_def depends_on_def acyclic_def)

lemma graph_inv_add_node: "graph_inv g \<Longrightarrow> graph_inv (add_node n g)"
  unfolding graph_inv_def
  by (simp add: subset_insertI2) (simp add: add_node_def distinct_set_add)

lemma add_node_unchanged:
  "n \<in> set (nodes g) \<Longrightarrow> n \<in> fst ` set (graph g) \<Longrightarrow> n \<in> fst ` set (reverse_graph g)
     \<Longrightarrow> add_node n g = g"
  by (simp add: add_node_def set_add_def)

lemma graph_inv_add_dependency:
  assumes i: "graph_inv g"
  shows "graph_inv (snd (add_dependency n d g))"
proof -
  let ?g1 = "add_node d (add_node n g)"
  have i1: "graph_inv ?g1" using i by (intro graph_inv_add_node)
  show ?thesis
  proof (cases "would_create_cycle ?g1 n d")
    case True
    with i1 show ?thesis by (simp add: add_dependency_def Let_def)
  next
    case False
    let ?g2 = "?g1\<lparr>graph := AList.update n (set_add d (successors (graph ?g1) n)) (graph ?g1),
                  reverse_graph := AList.update d (set_add n (successors (reverse_graph ?g1) d))
                                     (reverse_graph ?g1)\<rparr>"
    have g2: "snd (add_dependency n d g) = ?g2"
      using False by (simp add: add_dependency_def Let_def)
    have sg: "set (successors (graph ?g2) k) =
                (if k = n then insert d (set (successors (graph ?g1) n))
                 else set (successors (graph ?g1) k))" for k
      by (auto simp: successors_update set_add_def)
    have sr: "set (successors (reverse_graph ?g2) k) =
                (if k = d then insert n (set (successors (reverse_graph ?g1) d))
                 else set (successors (reverse_graph ?g1) k))" for k
      by (auto simp: successors_update set_add_def)
    have dg: "distinct (successors (graph ?g2) k)" "distinct (successors (reverse_graph ?g2) k)" for k
      using i1 by (auto simp: successors_update graph_inv_def distinct_set_add)
    have dep: "depends_on ?g2 = insert (n, d) (depends_on ?g1)"
      unfolding depends_on_def sg by (auto split: if_splits)
    have ac: "acyclic (depends_on ?g2)"
      unfolding dep acyclic_insert using i1 would_create_cycle_False [OF False]
      by (simp add: graph_inv_def)
    have "graph_inv ?g2"
      unfolding graph_inv_def
    proof (intro conjI allI impI)
      show "distinct (nodes ?g2)" using i1 by (simp add: graph_inv_def)
      show "set (nodes ?g2) \<subseteq> fst ` set (graph ?g2)"
        using i1 by (auto simp: graph_inv_def keys_update)
      show "set (nodes ?g2) \<subseteq> fst ` set (reverse_graph ?g2)"
        using i1 by (auto simp: graph_inv_def keys_update)
      show "acyclic (depends_on ?g2)" by (rule ac)
    next
      fix k e assume "e \<in> set (successors (graph ?g2) k)"
      then have "(k = n \<and> e = d) \<or> e \<in> set (successors (graph ?g1) k)"
        unfolding sg by (auto split: if_splits)
      moreover have "n \<in> set (nodes ?g1)" "d \<in> set (nodes ?g1)" by simp_all
      ultimately have "k \<in> set (nodes ?g1) \<and> e \<in> set (nodes ?g1)"
        using i1 unfolding graph_inv_def by blast
      then show "k \<in> set (nodes ?g2)" "e \<in> set (nodes ?g2)" by simp_all
    next
      fix k e
      have "(k \<in> set (successors (reverse_graph ?g1) e)) = (e \<in> set (successors (graph ?g1) k))"
        using i1 unfolding graph_inv_def by blast
      then show "(k \<in> set (successors (reverse_graph ?g2) e)) = (e \<in> set (successors (graph ?g2) k))"
        unfolding sg sr by auto
    next
      fix k show "distinct (successors (graph ?g2) k)" by (rule dg)
      show "distinct (successors (reverse_graph ?g2) k)" by (rule dg)
    qed
    then show ?thesis unfolding g2 .
  qed
qed

lemma successors_discard:
  "set (successors (case map_of d k of None \<Rightarrow> d | Some s \<Rightarrow> AList.update k (set_discard x s) d) k')
     = (if k' = k then set (successors d k) - {x} else set (successors d k'))"
  by (cases "map_of d k"; cases "k' = k")
     (auto simp: successors_def update_conv' set_discard_def)

lemma distinct_successors_discard:
  "distinct (successors d k') \<Longrightarrow>
     distinct (successors (case map_of d k of None \<Rightarrow> d | Some s \<Rightarrow> AList.update k (set_discard x s) d) k')"
  by (cases "map_of d k"; cases "k' = k")
     (auto simp: successors_def update_conv' set_discard_def distinct_removeAll)

lemma keys_discard:
  "fst ` set (case map_of d k of None \<Rightarrow> d | Some s \<Rightarrow> AList.update k (set_discard x s) d)
     = fst ` set d"
proof (cases "map_of d k")
  case None
  then show ?thesis by simp
next
  case (Some s)
  then have "k \<in> fst ` set d" by (metis map_of_eq_None_iff option.distinct(1))
  with Some show ?thesis by (auto simp: keys_update)
qed

lemma graph_inv_remove_dependency:
  assumes i: "graph_inv g"
  shows "graph_inv (remove_dependency n d g)"
proof -
  let ?g' = "remove_dependency n d g"
  have sg: "set (successors (graph ?g') k) =
              (if k = n then set (successors (graph g) n) - {d} else set (successors (graph g) k))" for k
    by (simp add: remove_dependency_def successors_discard)
  have sr: "set (successors (reverse_graph ?g') k) =
              (if k = d then set (successors (reverse_graph g) d) - {n}
               else set (successors (reverse_graph g) k))" for k
    by (simp add: remove_dependency_def successors_discard)
  have sub: "depends_on ?g' \<subseteq> depends_on g"
    unfolding depends_on_def sg by (auto split: if_splits)
  show ?thesis
    unfolding graph_inv_def
  proof (intro conjI allI impI)
    show "distinct (nodes ?g')" using i by (simp add: graph_inv_def remove_dependency_def)
    show "set (nodes ?g') \<subseteq> fst ` set (graph ?g')"
      using i by (simp add: graph_inv_def remove_dependency_def keys_discard)
    show "set (nodes ?g') \<subseteq> fst ` set (reverse_graph ?g')"
      using i by (simp add: graph_inv_def remove_dependency_def keys_discard)
    show "acyclic (depends_on ?g')"
      using i sub unfolding graph_inv_def by (blast intro: acyclic_subset)
  next
    fix k e assume "e \<in> set (successors (graph ?g') k)"
    then have "e \<in> set (successors (graph g) k)" unfolding sg by (auto split: if_splits)
    with i have "k \<in> set (nodes g) \<and> e \<in> set (nodes g)" unfolding graph_inv_def by blast
    then show "k \<in> set (nodes ?g')" "e \<in> set (nodes ?g')"
      by (simp_all add: remove_dependency_def)
  next
    fix k e
    have "(k \<in> set (successors (reverse_graph g) e)) = (e \<in> set (successors (graph g) k))"
      using i unfolding graph_inv_def by blast
    then show "(k \<in> set (successors (reverse_graph ?g') e)) = (e \<in> set (successors (graph ?g') k))"
      unfolding sg sr by auto
  next
    fix k
    from i have "distinct (successors (graph g) k)" "distinct (successors (reverse_graph g) k)"
      unfolding graph_inv_def by blast+
    then show "distinct (successors (graph ?g') k)" "distinct (successors (reverse_graph ?g') k)"
      by (simp_all add: remove_dependency_def distinct_successors_discard)
  qed
qed

lemma reachable_graph_inv: "reachable_graph g \<Longrightarrow> graph_inv g"
  by (induction rule: reachable_graph.induct)
     (simp_all add: graph_inv_empty graph_inv_add_node graph_inv_add_dependency
        graph_inv_remove_dependency graph_inv_clear)

lemma add_dependency_raises:
  assumes "(dep, node) \<in> (depends_on g)\<^sup>*"
  shows "add_dependency node dep g = (Raises CircularDependencyError, add_node dep (add_node node g))"
proof -
  let ?g1 = "add_node dep (add_node node g)"
  have "(dep, node) \<in> (depends_on ?g1)\<^sup>*" using assms by simp
  with would_create_cycle_False [of ?g1 node dep] have "would_create_cycle ?g1 node dep" by blast
  then show ?thesis by (simp add: add_dependency_def Let_def)
qed

text \<open>
  Claim C3, as the code has it. In every state of the graph, when \<open>dep\<close> reaches \<open>node\<close>
  along dependency edges (in no step or more), \<open>add_dependency node dep\<close> raises
  \<open>CircularDependencyError\<close> and applies no edge. Both nodes are added before the search,
  so the node set afterwards is the old one with \<open>node\<close> and \<open>dep\<close>; the graph is left
  exactly as it was if and only if \<open>node\<close> was a node already, which is so whenever the
  path has at least one edge.
\<close>

theorem add_dependency_cycle_rejected:
  assumes r: "reachable_graph g"
      and p: "(dep, node) \<in> (depends_on g)\<^sup>*"
  shows "fst (add_dependency node dep g) = Raises CircularDependencyError
       \<and> depends_on (snd (add_dependency node dep g)) = depends_on g
       \<and> (\<forall>k. successors (graph (snd (add_dependency node dep g))) k = successors (graph g) k
              \<and> successors (reverse_graph (snd (add_dependency node dep g))) k
                  = successors (reverse_graph g) k)
       \<and> set (nodes (snd (add_dependency node dep g))) = set (nodes g) \<union> {node, dep}
       \<and> ((snd (add_dependency node dep g) = g) = (node \<in> set (nodes g)))
       \<and> ((dep, node) \<in> (depends_on g)\<^sup>+ \<longrightarrow> snd (add_dependency node dep g) = g)"
proof -
  let ?g' = "snd (add_dependency node dep g)"
  have g': "add_dependency node dep g = (Raises CircularDependencyError, add_node dep (add_node node g))"
    using p by (rule add_dependency_raises)
  have i: "graph_inv g" using r by (rule reachable_graph_inv)
  have ends: "a \<in> set (nodes g) \<and> b \<in> set (nodes g)" if "(a, b) \<in> depends_on g" for a b
    using that i unfolding graph_inv_def depends_on_def by blast
  have keys: "k \<in> fst ` set (graph g) \<and> k \<in> fst ` set (reverse_graph g)"
    if "k \<in> set (nodes g)" for k
    using that i unfolding graph_inv_def by blast
  have same: "?g' = g" if n: "node \<in> set (nodes g)"
  proof -
    have "dep \<in> set (nodes g)"
      using p n ends by (cases rule: converse_rtranclE) auto
    with n keys show ?thesis by (simp add: g' add_node_unchanged)
  qed
  have nd: "node \<in> set (nodes g)" if "?g' = g"
  proof -
    have "node \<in> set (nodes ?g')" by (simp add: g')
    with that show ?thesis by simp
  qed
  have plus: "?g' = g" if "(dep, node) \<in> (depends_on g)\<^sup>+"
  proof -
    from that obtain z where "(z, node) \<in> depends_on g" by (meson tranclE)
    with ends have "node \<in> set (nodes g)" by blast
    then show ?thesis by (rule same)
  qed
  have c1: "fst (add_dependency node dep g) = Raises CircularDependencyError"
    by (simp add: g')
  have c2: "depends_on ?g' = depends_on g" by (simp add: g')
  have c3: "\<forall>k. successors (graph ?g') k = successors (graph g) k
              \<and> successors (reverse_graph ?g') k = successors (reverse_graph g) k"
    by (simp add: g')
  have c4: "set (nodes ?g') = set (nodes g) \<union> {node, dep}"
    unfolding g' by auto
  have c5: "(?g' = g) = (node \<in> set (nodes g))"
    using same nd by blast
  have c6: "(dep, node) \<in> (depends_on g)\<^sup>+ \<longrightarrow> ?g' = g"
    using plus by blast
  from c1 c2 c3 c4 c5 c6 show ?thesis by (intro conjI)
qed

text \<open>
  Claim C3 as it is written fails for a dependency of a new node on itself: the call
  raises, and the node has been added to the graph.
\<close>

theorem add_dependency_cycle_rejected_counterexample:
  "(''a'', ''a'') \<in> (depends_on empty_graph)\<^sup>*
   \<and> fst (add_dependency ''a'' ''a'' empty_graph) = Raises CircularDependencyError
   \<and> nodes empty_graph = []
   \<and> nodes (snd (add_dependency ''a'' ''a'' empty_graph)) = [''a'']"
  by (simp add: add_dependency_def add_node_def empty_graph_def would_create_cycle_def
        set_add_def Let_def)

theorem add_dependency_cycle_rejected_witness:
  "reachable_graph chain_graph
   \<and> (''c'', ''a'') \<in> (depends_on chain_graph)\<^sup>+
   \<and> fst (add_dependency ''a'' ''c'' chain_graph) = Raises CircularDependencyError
   \<and> snd (add_dependency ''a'' ''c'' chain_graph) = chain_graph"
proof -
  have r: "reachable_graph chain_graph"
    unfolding chain_graph_def by (intro reachable_graph.dependency reachable_graph.empty)
  have g: "graph chain_graph = [(''b'', [''a'']), (''a'', []), (''c'', [''b''])]"
    by code_simp
  have "(''c'', ''b'') \<in> depends_on chain_graph" "(''b'', ''a'') \<in> depends_on chain_graph"
    by (simp_all add: depends_on_def g successors_def)
  then have t: "(''c'', ''a'') \<in> (depends_on chain_graph)\<^sup>+" by (rule trancl_into_trancl2 [OF _ r_into_trancl])
  then have p: "(''c'', ''a'') \<in> (depends_on chain_graph)\<^sup>*" by (rule trancl_into_rtrancl)
  from add_dependency_cycle_rejected [OF r p] t r show ?thesis by blast
qed

lemma reduce_in_degree_char:
  "distinct ds \<Longrightarrow> set ds \<subseteq> fst ` set deg \<Longrightarrow>
     \<exists>deg'. reduce_in_degree ds deg q = Inr (deg', q @ filter (\<lambda>d. map_of deg d = Some 1) ds)
       \<and> (\<forall>n. map_of deg' n =
              (if n \<in> set ds then map_option (\<lambda>v. v - 1) (map_of deg n) else map_of deg n))"
proof (induction ds arbitrary: deg q)
  case Nil
  then show ?case by simp
next
  case (Cons d ds)
  from Cons.prems(2) have "d \<in> fst ` set deg" by simp
  then obtain v where v: "map_of deg d = Some v"
    by (metis map_of_eq_None_iff not_Some_eq)
  let ?deg1 = "AList.update d (v - 1) deg"
  let ?q1 = "if v - 1 = 0 then q @ [d] else q"
  have nd: "d \<notin> set ds" and dd: "distinct ds" using Cons.prems(1) by simp_all
  have other: "map_of ?deg1 x = map_of deg x" if "x \<in> set ds" for x
    using that nd by (auto simp: update_conv')
  have "set ds \<subseteq> fst ` set ?deg1"
    using Cons.prems(2) by (auto simp: keys_update)
  from Cons.IH [OF dd this, of ?q1] obtain deg' where
    r: "reduce_in_degree ds ?deg1 ?q1 = Inr (deg', ?q1 @ filter (\<lambda>x. map_of ?deg1 x = Some 1) ds)"
    and m: "\<forall>n. map_of deg' n =
              (if n \<in> set ds then map_option (\<lambda>v. v - 1) (map_of ?deg1 n) else map_of ?deg1 n)"
    by blast
  have f: "filter (\<lambda>x. map_of ?deg1 x = Some 1) ds = filter (\<lambda>x. map_of deg x = Some 1) ds"
    by (rule filter_cong) (simp_all add: other)
  have q: "?q1 @ filter (\<lambda>x. map_of deg x = Some 1) ds
             = q @ filter (\<lambda>x. map_of deg x = Some 1) (d # ds)"
    using v by auto
  have r': "reduce_in_degree (d # ds) deg q
              = Inr (deg', q @ filter (\<lambda>x. map_of deg x = Some 1) (d # ds))"
    using v r unfolding f q by simp
  have m': "map_of deg' n =
              (if n \<in> set (d # ds) then map_option (\<lambda>v. v - 1) (map_of deg n) else map_of deg n)"
    for n
  proof (cases "n \<in> set ds")
    case True
    with m other show ?thesis by simp
  next
    case False
    with m have "map_of deg' n = map_of ?deg1 n" by simp
    with False v show ?thesis by (simp add: update_conv')
  qed
  from r' m' show ?case by blast
qed

lemma deps_before_snoc:
  "deps_before gr res \<Longrightarrow> set (successors gr node) \<subseteq> set res
     \<Longrightarrow> deps_before gr (res @ [node])"
  unfolding deps_before_def
proof (intro allI impI)
  fix i assume a: "\<forall>i < length res. set (successors gr (res ! i)) \<subseteq> set (take i res)"
    and b: "set (successors gr node) \<subseteq> set res" and i: "i < length (res @ [node])"
  show "set (successors gr ((res @ [node]) ! i)) \<subseteq> set (take i (res @ [node]))"
  proof (cases "i < length res")
    case True
    with a show ?thesis by (simp add: nth_append)
  next
    case False
    with i have "i = length res" by simp
    with b show ?thesis by simp
  qed
qed

lemma deps_before_member:
  assumes "deps_before gr res" "n \<in> set res" "d \<in> set (successors gr n)"
  shows "d \<in> set res"
proof -
  from assms(2) obtain i where i: "i < length res" "res ! i = n" by (auto simp: in_set_conv_nth)
  with assms(1,3) have "d \<in> set (take i res)" unfolding deps_before_def by blast
  then show ?thesis by (rule in_set_takeD)
qed

lemma kahn_step:
  assumes gi: "graph_inv g"
      and ki: "kahn_inv g deg (node # q0) res"
      and rd: "reduce_in_degree (successors (reverse_graph g) node) deg q0 = Inr (deg', q')"
  shows "kahn_inv g deg' q' (res @ [node])"
proof -
  let ?D = "\<lambda>n. set (successors (graph g) n)"
  let ?ds = "successors (reverse_graph g) node"
  let ?R = "set res"
  let ?R' = "insert node (set res)"
  from ki have dist: "distinct (res @ node # q0)" and sub: "set (res @ node # q0) \<subseteq> set (nodes g)"
    and deg: "\<forall>n \<in> set (nodes g). map_of deg n = Some (int (card (?D n - ?R)))"
    and zero: "\<forall>n \<in> set (nodes g). ?D n \<subseteq> ?R \<longrightarrow> n \<in> set (res @ node # q0)"
    and ready: "\<forall>n \<in> set (node # q0). ?D n \<subseteq> ?R"
    and before: "deps_before (graph g) res"
    unfolding kahn_inv_def by blast+
  from gi have ends: "\<And>n d. d \<in> ?D n \<Longrightarrow> n \<in> set (nodes g) \<and> d \<in> set (nodes g)"
    and cons: "\<And>n d. (n \<in> set (successors (reverse_graph g) d)) = (d \<in> ?D n)"
    and dds: "distinct ?ds"
    unfolding graph_inv_def by blast+
  have node_new: "node \<notin> ?R" using dist by auto
  have node_in: "node \<in> set (nodes g)" using sub by simp
  have node_ready: "?D node \<subseteq> ?R" using ready by simp
  have ds_iff: "n \<in> set ?ds \<longleftrightarrow> node \<in> ?D n" for n by (rule cons)
  have ds_nodes: "set ?ds \<subseteq> set (nodes g)" using ds_iff ends by blast
  have ds_keys: "set ?ds \<subseteq> fst ` set deg"
  proof
    fix n assume "n \<in> set ?ds"
    with ds_nodes deg have "map_of deg n \<noteq> None" by auto
    then show "n \<in> fst ` set deg" by (simp add: map_of_eq_None_iff)
  qed
  from reduce_in_degree_char [OF dds ds_keys, of q0] rd
  have q': "q' = q0 @ filter (\<lambda>d. map_of deg d = Some 1) ?ds"
    and deg': "\<And>n. map_of deg' n =
              (if n \<in> set ?ds then map_option (\<lambda>v. v - 1) (map_of deg n) else map_of deg n)"
    by auto
  have diff: "?D n - ?R' = (?D n - ?R) - {node}" for n by blast
  have card_in: "card (?D n - ?R) = Suc (card (?D n - ?R'))" if "node \<in> ?D n" for n
  proof -
    have "node \<in> ?D n - ?R" using that node_new by simp
    moreover have "finite (?D n - ?R)" by simp
    ultimately have "card (?D n - ?R) = Suc (card ((?D n - ?R) - {node}))"
      by (intro card.remove)
    then show ?thesis unfolding diff .
  qed
  have same_out: "?D n - ?R' = ?D n - ?R" if "node \<notin> ?D n" for n using that by blast
  have one_iff: "(map_of deg n = Some 1) = (?D n \<subseteq> ?R')" if "n \<in> set ?ds" for n
  proof -
    from that have in_n: "node \<in> ?D n" by (simp add: ds_iff)
    from that ds_nodes deg have "map_of deg n = Some (int (card (?D n - ?R)))" by blast
    then have "(map_of deg n = Some 1) = (card (?D n - ?R') = 0)"
      by (simp add: card_in [OF in_n])
    also have "\<dots> = (?D n \<subseteq> ?R')" by simp
    finally show ?thesis .
  qed
  have pushed: "set q' = set q0 \<union> {n \<in> set ?ds. ?D n \<subseteq> ?R'}"
    unfolding q' using one_iff by auto
  have not_old: "n \<notin> set (res @ node # q0)" if "n \<in> set ?ds" for n
  proof
    assume old: "n \<in> set (res @ node # q0)"
    from that have in_n: "node \<in> ?D n" by (simp add: ds_iff)
    from old consider "n \<in> set res" | "n \<in> set (node # q0)" by auto
    then show False
    proof cases
      case 1
      from deps_before_member [OF before 1 in_n] node_new show False by simp
    next
      case 2
      with ready in_n node_new show False by blast
    qed
  qed
  have a: "distinct ((res @ [node]) @ q')"
  proof -
    have "distinct (filter (\<lambda>d. map_of deg d = Some 1) ?ds)" using dds by simp
    moreover have "set (filter (\<lambda>d. map_of deg d = Some 1) ?ds) \<inter> set (res @ node # q0) = {}"
      using not_old by auto
    ultimately show ?thesis using dist unfolding q' by auto
  qed
  have b: "set ((res @ [node]) @ q') \<subseteq> set (nodes g)"
    using sub ds_nodes pushed by auto
  have c: "\<forall>n \<in> set (nodes g). map_of deg' n = Some (int (card (?D n - set (res @ [node]))))"
  proof
    fix n assume n: "n \<in> set (nodes g)"
    with deg have d0: "map_of deg n = Some (int (card (?D n - ?R)))" by blast
    show "map_of deg' n = Some (int (card (?D n - set (res @ [node]))))"
    proof (cases "n \<in> set ?ds")
      case True
      then have "node \<in> ?D n" by (simp add: ds_iff)
      from card_in [OF this] True d0 show ?thesis by (simp add: deg')
    next
      case False
      then have "node \<notin> ?D n" by (simp add: ds_iff)
      from same_out [OF this] False d0 show ?thesis by (simp add: deg')
    qed
  qed
  have d: "\<forall>n \<in> set (nodes g). ?D n \<subseteq> set (res @ [node]) \<longrightarrow> n \<in> set ((res @ [node]) @ q')"
  proof (intro ballI impI)
    fix n assume n: "n \<in> set (nodes g)" and s: "?D n \<subseteq> set (res @ [node])"
    show "n \<in> set ((res @ [node]) @ q')"
    proof (cases "node \<in> ?D n")
      case True
      then have "n \<in> set ?ds" by (simp add: ds_iff)
      with s have "n \<in> set q'" unfolding pushed by simp
      then show ?thesis by simp
    next
      case False
      with s have "?D n \<subseteq> ?R" by auto
      with zero n have "n \<in> set (res @ node # q0)" by blast
      then show ?thesis using pushed by auto
    qed
  qed
  have e: "\<forall>n \<in> set q'. ?D n \<subseteq> set (res @ [node])"
    using ready unfolding pushed by auto
  have f: "deps_before (graph g) (res @ [node])"
    using before node_ready by (rule deps_before_snoc)
  from a b c d e f show ?thesis unfolding kahn_inv_def by blast
qed

lemma kahn_loop_correct:
  "graph_inv g \<Longrightarrow> kahn_inv g deg q res \<Longrightarrow>
     \<exists>order deg'. kahn_loop (reverse_graph g) deg q res = Inr order \<and> kahn_inv g deg' [] order"
proof (induction rg \<equiv> "reverse_graph g" deg q res rule: kahn_loop.induct)
  case (1 in_degree res)
  then show ?case by auto
next
  case (2 in_degree node dq res)
  let ?ds = "successors (reverse_graph g) node"
  from "2.prems" have dds: "distinct ?ds" unfolding graph_inv_def by blast
  have keys: "set ?ds \<subseteq> fst ` set in_degree"
  proof
    fix n assume n: "n \<in> set ?ds"
    with "2.prems"(1) have "n \<in> set (nodes g)" unfolding graph_inv_def by blast
    with "2.prems"(2) have "map_of in_degree n \<noteq> None" unfolding kahn_inv_def by auto
    then show "n \<in> fst ` set in_degree" by (simp add: map_of_eq_None_iff)
  qed
  from reduce_in_degree_char [OF dds keys, of dq] obtain deg' q' where
    rd: "reduce_in_degree ?ds in_degree dq = Inr (deg', q')" by blast
  have ki: "kahn_inv g deg' q' (res @ [node])"
    using "2.prems" rd by (rule kahn_step)
  from "2.hyps" [OF rd refl "2.prems"(1) ki] obtain order deg'' where
    "kahn_loop (reverse_graph g) deg' q' (res @ [node]) = Inr order" "kahn_inv g deg'' [] order"
    by blast
  with rd show ?case by auto
qed

lemma kahn_all_nodes:
  assumes gi: "graph_inv g" and ki: "kahn_inv g deg [] order"
  shows "set order = set (nodes g)"
proof (rule ccontr)
  assume ne: "set order \<noteq> set (nodes g)"
  let ?Q = "set (nodes g) - set order"
  from ki have sub: "set order \<subseteq> set (nodes g)"
    and zero: "\<forall>n \<in> set (nodes g). set (successors (graph g) n) \<subseteq> set order \<longrightarrow> n \<in> set order"
    unfolding kahn_inv_def by auto
  from ne sub obtain x where x: "x \<in> ?Q" by blast
  from gi have ends: "\<And>n d. d \<in> set (successors (graph g) n) \<Longrightarrow> n \<in> set (nodes g) \<and> d \<in> set (nodes g)"
    and ac: "acyclic (depends_on g)"
    unfolding graph_inv_def by blast+
  have "depends_on g \<subseteq> set (nodes g) \<times> set (nodes g)"
    unfolding depends_on_def using ends by auto
  then have "finite (depends_on g)" by (rule finite_subset) simp
  then have "wf ((depends_on g)\<inverse>)" using ac by (rule finite_acyclic_wf_converse)
  from wfE_min [OF this x] obtain z where z: "z \<in> ?Q"
    and min: "\<And>y. (y, z) \<in> (depends_on g)\<inverse> \<Longrightarrow> y \<notin> ?Q" by blast
  have "set (successors (graph g) z) \<subseteq> set order"
  proof
    fix d assume d: "d \<in> set (successors (graph g) z)"
    then have "(d, z) \<in> (depends_on g)\<inverse>" by (simp add: depends_on_def)
    from min [OF this] ends [OF d] show "d \<in> set order" by simp
  qed
  with zero z show False by blast
qed

lemma index_of_nth:
  "distinct xs \<Longrightarrow> i < length xs \<Longrightarrow> index_of xs (xs ! i) = Some i"
proof (induction xs arbitrary: i)
  case Nil
  then show ?case by simp
next
  case (Cons x xs)
  show ?case
  proof (cases i)
    case 0
    then show ?thesis by simp
  next
    case (Suc j)
    with Cons.prems have "xs ! j \<noteq> x" by auto
    with Suc Cons show ?thesis by simp
  qed
qed

lemma kahn_initial:
  assumes gi: "graph_inv g"
  shows "kahn_inv g (map (\<lambda>node. (node, int (length (successors (graph g) node)))) (nodes g))
           (filter (\<lambda>node. map_of (map (\<lambda>node. (node, int (length (successors (graph g) node))))
                                   (nodes g)) node = Some 0) (nodes g)) []"
proof -
  let ?deg = "map (\<lambda>node. (node, int (length (successors (graph g) node)))) (nodes g)"
  from gi have dn: "distinct (nodes g)"
    and ds: "\<And>n. distinct (successors (graph g) n)"
    unfolding graph_inv_def by blast+
  have m: "map_of ?deg n = Some (int (card (set (successors (graph g) n))))"
    if "n \<in> set (nodes g)" for n
  proof -
    have "map_of ?deg n = Some (int (length (successors (graph g) n)))"
      using that by (simp add: map_of_map_restrict)
    then show ?thesis by (simp add: distinct_card [OF ds])
  qed
  show ?thesis
    unfolding kahn_inv_def using dn m by (auto simp: deps_before_def)
qed

text \<open>
  Claim C5. For every graph that the methods build (by \<open>add_node\<close>, \<open>add_dependency\<close>
  whether it returns or raises, \<open>remove_dependency\<close>, \<open>clear\<close>; in particular by
  successful calls of \<open>add_dependency\<close> only), \<open>topological_sort\<close> returns a list that
  is a permutation of the nodes, and for every edge the position of the dependency in the
  list is strictly smaller than the position of the dependent. The statement holds for
  every iteration order of the sets, since it is proved from an invariant that does not
  mention the order.
\<close>

theorem topological_sort_correct:
  assumes r: "reachable_graph g"
  shows "\<exists>order. topological_sort g = Inr order
           \<and> mset order = mset (nodes g)
           \<and> distinct order
           \<and> (\<forall>n d. d \<in> set (successors (graph g) n) \<longrightarrow>
                 (\<exists>i j. index_of order d = Some i \<and> index_of order n = Some j \<and> i < j))"
proof -
  have gi: "graph_inv g" using r by (rule reachable_graph_inv)
  let ?deg = "map (\<lambda>node. (node, int (length (successors (graph g) node)))) (nodes g)"
  let ?q = "filter (\<lambda>node. map_of ?deg node = Some 0) (nodes g)"
  from kahn_loop_correct [OF gi kahn_initial [OF gi]] obtain order deg' where
    k: "kahn_loop (reverse_graph g) ?deg ?q [] = Inr order" and ki: "kahn_inv g deg' [] order"
    by blast
  have s: "set order = set (nodes g)" using gi ki by (rule kahn_all_nodes)
  from ki have d: "distinct order" and b: "deps_before (graph g) order"
    unfolding kahn_inv_def by auto
  from gi have dn: "distinct (nodes g)" unfolding graph_inv_def by blast
  have m: "mset order = mset (nodes g)"
    using s d dn by (simp add: set_eq_iff_mset_eq_distinct)
  then have "size (mset order) = size (mset (nodes g))" by simp
  then have l: "length order = length (nodes g)" by simp
  have t: "topological_sort g = Inr order"
    using k l by (simp add: topological_sort_def Let_def)
  have o: "\<exists>i j. index_of order e = Some i \<and> index_of order n = Some j \<and> i < j"
    if e: "e \<in> set (successors (graph g) n)" for n e
  proof -
    from gi e have "n \<in> set (nodes g)" unfolding graph_inv_def by blast
    with s have "n \<in> set order" by simp
    then obtain j where j: "j < length order" "order ! j = n"
      by (auto simp: in_set_conv_nth)
    with b e have "e \<in> set (take j order)" unfolding deps_before_def by blast
    then obtain i where i: "i < length (take j order)" "take j order ! i = e"
      by (auto simp: in_set_conv_nth)
    then have ij: "i < j" "order ! i = e" by simp_all
    with j have il: "i < length order" by simp
    from index_of_nth [OF d il] index_of_nth [OF d j(1)] ij j show ?thesis by auto
  qed
  from t m d o show ?thesis by blast
qed

theorem topological_sort_correct_witness:
  "reachable_graph chain_graph
   \<and> topological_sort chain_graph = Inr [''a'', ''b'', ''c'']
   \<and> ''b'' \<in> set (successors (graph chain_graph) ''c'')
   \<and> (\<exists>i j. index_of [''a'', ''b'', ''c''] ''b'' = Some i
          \<and> index_of [''a'', ''b'', ''c''] ''c'' = Some j \<and> i < j)"
proof -
  have r: "reachable_graph chain_graph"
    unfolding chain_graph_def by (intro reachable_graph.dependency reachable_graph.empty)
  have t: "topological_sort chain_graph = Inr [''a'', ''b'', ''c'']"
    by code_simp
  have e: "''b'' \<in> set (successors (graph chain_graph) ''c'')"
    by code_simp
  from topological_sort_correct [OF r] obtain order where
    "topological_sort chain_graph = Inr order"
    "\<forall>n d. d \<in> set (successors (graph chain_graph) n) \<longrightarrow>
        (\<exists>i j. index_of order d = Some i \<and> index_of order n = Some j \<and> i < j)"
    by blast
  with t e have "\<exists>i j. index_of [''a'', ''b'', ''c''] ''b'' = Some i
          \<and> index_of [''a'', ''b'', ''c''] ''c'' = Some j \<and> i < j"
    by auto
  with r t e show ?thesis by blast
qed

section \<open>Properties of the orchestrator\<close>

lemma execute_task_no_agent:
  "find_available_agent (Some (task_agent_type t)) None (agent_registry orch) = Inr None
     \<Longrightarrow> execute_task env mid now t orch = (Returns False, orch)"
  by (simp add: execute_task_def)

lemma get_next_task_stored:
  assumes g: "get_next_task timeout now q = (Returns (Some tid), q')"
      and t: "map_of (tasks q) tid = Some t"
  shows "map_of (tasks q') tid = Some (start now t)"
    and "pending q' = set_discard tid (pending q)"
    and "in_progress q' = set_add tid (in_progress q)"
proof -
  from g obtain prio rest where
    q': "q' = on_task tid (start now)
               (q\<lparr>queue := rest, pending := set_discard tid (pending q),
                  in_progress := set_add tid (in_progress q)\<rparr>)"
    by (auto simp: get_next_task_def split: outcome.splits error.splits prod.splits)
  from t show "map_of (tasks q') tid = Some (start now t)"
    by (simp add: q' map_of_on_task)
  show "pending q' = set_discard tid (pending q)" by (simp add: q')
  show "in_progress q' = set_add tid (in_progress q)" by (simp add: q')
qed

lemma start_agent_type: "task_agent_type (start now t) = task_agent_type t"
  by (simp add: start_def)

text \<open>
  Claim C1, as amended. When a pass of the dispatch loop takes a task from the priority
  queue and no idle or busy agent is found for the task's agent type, the pass does the
  dequeue and nothing else to the state: the task is no longer pending, the pass has taken
  its entry from the priority queue and put none back, and the registry, the bus and the
  shared memory are as before. The pass returns normally, the loop goes on, and the
  task's identifier is appended to the list \<open>failed\<close> of the results.
\<close>

theorem no_agent_pass:
  assumes g: "get_next_task (Some 1) now (task_queue orch) = (Returns (Some tid), q')"
      and t: "map_of (tasks (task_queue orch)) tid = Some t"
      and n: "find_available_agent (Some (task_agent_type t)) None (agent_registry orch)
                = Inr None"
  shows "dispatch_pass env mid now orch res =
           (Returns (True, res\<lparr>results_failed := results_failed res @ [tid]\<rparr>),
            orch\<lparr>task_queue := q'\<rparr>)
       \<and> tid \<notin> set (pending q')
       \<and> (\<exists>prio. mset (queue (task_queue orch)) = add_mset (prio, tid) (mset (queue q')))"
proof -
  from get_next_task_stored(1) [OF g t]
  have s: "map_of (tasks q') tid = Some (start now t)" .
  from n have "execute_task env mid now (start now t) (orch\<lparr>task_queue := q'\<rparr>)
                 = (Returns False, orch\<lparr>task_queue := q'\<rparr>)"
    by (intro execute_task_no_agent) (simp add: start_agent_type)
  with g s have d: "dispatch_pass env mid now orch res =
           (Returns (True, res\<lparr>results_failed := results_failed res @ [tid]\<rparr>),
            orch\<lparr>task_queue := q'\<rparr>)"
    by (simp add: dispatch_pass_def)
  from get_next_task_stored(2) [OF g t] have p: "tid \<notin> set (pending q')"
    by (simp add: set_discard_def)
  from get_next_task_returned [OF g]
  have m: "\<exists>prio. mset (queue (task_queue orch)) = add_mset (prio, tid) (mset (queue q'))"
    by blast
  from d p m show ?thesis by blast
qed

theorem no_agent_pass_witness:
  "fst (get_next_task (Some 1) 3 (task_queue offline_researcher)) = Returns (Some ''t1'')
   \<and> map_of (tasks (task_queue offline_researcher)) ''t1''
       = Some (new_task ''t1'' ''researcher'' ''search'' PyNone 2 [] [] 2)
   \<and> map_option status (get_agent ''a1'' (agent_registry offline_researcher)) = Some ''offline''
   \<and> find_available_agent (Some ''researcher'') None (agent_registry offline_researcher)
       = Inr None
   \<and> dispatch_pass (idle_env 1) (message_ids 1) 3 offline_researcher
         (initial_results offline_researcher)
       = (Returns (True, (initial_results offline_researcher)\<lparr>results_failed := [''t1'']\<rparr>),
          offline_researcher
            \<lparr>task_queue := snd (get_next_task (Some 1) 3 (task_queue offline_researcher))\<rparr>)
   \<and> ''t1'' \<notin> set (pending (snd (get_next_task (Some 1) 3 (task_queue offline_researcher))))
   \<and> queue (task_queue offline_researcher) = [(2, ''t1'')]
   \<and> queue (snd (get_next_task (Some 1) 3 (task_queue offline_researcher))) = []"
proof -
  let ?q = "task_queue offline_researcher"
  let ?t = "new_task ''t1'' ''researcher'' ''search'' PyNone 2 [] [] 2"
  have f: "fst (get_next_task (Some 1) 3 ?q) = Returns (Some ''t1'')"
    by code_simp
  then have g: "get_next_task (Some 1) 3 ?q = (Returns (Some ''t1''), snd (get_next_task (Some 1) 3 ?q))"
    by (metis prod.collapse)
  have t: "map_of (tasks ?q) ''t1'' = Some ?t"
    by code_simp
  have a: "task_agent_type ?t = ''researcher''"
    by (simp add: new_task_def)
  have s: "map_option status (get_agent ''a1'' (agent_registry offline_researcher)) = Some ''offline''"
    by code_simp
  have n: "find_available_agent (Some (task_agent_type ?t)) None (agent_registry offline_researcher)
             = Inr None"
    unfolding a by code_simp
  have r: "results_failed (initial_results offline_researcher) = []"
    by (simp add: initial_results_def)
  have h: "queue ?q = [(2, ''t1'')]"
    by code_simp
  have h': "queue (snd (get_next_task (Some 1) 3 ?q)) = []"
    by code_simp
  from no_agent_pass [OF g t n, of "idle_env 1" "message_ids 1" "initial_results offline_researcher"]
    f t s n h h'
  show ?thesis by (simp add: a r)
qed

text \<open>
  The claim as the specification words it fails on an orchestrator with one task for a
  researcher and no agent: the task is pending before the first pass; the pass leaves no
  pending task and an empty priority queue and lists the task under \<open>failed\<close>; the second
  pass finds no task and ends the loop, and \<open>execute_all\<close> reports the task as failed and
  no task as cancelled.
\<close>

theorem no_agent_pass_counterexample:
  "pending (task_queue lone_task) = [''t1'']
   \<and> find_available_agent (Some ''researcher'') None (agent_registry lone_task) = Inr None
   \<and> fst (dispatch_pass (idle_env 1) (message_ids 1) 1 lone_task (initial_results lone_task))
       = Returns (True, \<lparr>results_total_tasks = 1, results_completed = [],
                         results_failed = [''t1''], results_cancelled = []\<rparr>)
   \<and> pending (task_queue (snd (dispatch_pass (idle_env 1) (message_ids 1) 1 lone_task
                                  (initial_results lone_task)))) = []
   \<and> queue (task_queue (snd (dispatch_pass (idle_env 1) (message_ids 1) 1 lone_task
                                (initial_results lone_task)))) = []
   \<and> fst (get_next_task (Some 1) 2
            (task_queue (snd (dispatch_pass (idle_env 1) (message_ids 1) 1 lone_task
                                (initial_results lone_task))))) = Returns None
   \<and> fst (execute_all idle_env message_ids (\<lambda>i. i) 100 lone_task)
       = Returns \<lparr>results_total_tasks = 1, results_completed = [],
                  results_failed = [''t1''], results_cancelled = []\<rparr>"
  by code_simp
end
